theory Spec2Isabelle
  imports Complex_Main "HOL-Library.Multiset" "HOL-Library.AList"
begin

section \<open>Python runtime: exceptions, list indexing, the random module\<close>

text \<open>
  The exceptions that the modelled code can raise and that are not caught at the place
  where they arise. \<open>EOFError\<close> is always caught by the game loop and therefore appears
  as a branch of the model, not as an error value.
\<close>

datatype error = IndexError | ValueError

text \<open>Sequencing of two computations that may raise: the first exception propagates.\<close>

definition ebind :: "error + 'a \<Rightarrow> ('a \<Rightarrow> error + 'b) \<Rightarrow> error + 'b" where
  "ebind r f = (case r of Inl e \<Rightarrow> Inl e | Inr v \<Rightarrow> f v)"

text \<open>
  The module-level random generator is global state. It is modelled as an explicit source
  of raw draws, threaded through every function that uses \<open>random\<close>: an infinite
  sequence of naturals, of which each library call consumes the first. Quantifying over
  all sources covers every outcome the library calls can have.
\<close>

type_synonym rng = "nat \<Rightarrow> nat"

definition rng_tail :: "rng \<Rightarrow> rng" where
  "rng_tail g = (\<lambda>i. g (Suc i))"

definition rng_const :: "nat \<Rightarrow> rng" where
  "rng_const n = (\<lambda>i. n)"

definition rng_of_list :: "nat list \<Rightarrow> rng" where
  "rng_of_list ds = (\<lambda>i. if i < length ds then ds ! i else 0)"

definition random_choice :: "'a list \<Rightarrow> rng \<Rightarrow> error + ('a \<times> rng)" where
  \<comment> \<open>\<open>random.choice(seq)\<close>: IndexError on the empty sequence.\<close>
  "random_choice xs g =
     (if xs = [] then Inl IndexError
      else Inr (xs ! (g 0 mod length xs), rng_tail g))"

definition random_randint :: "int \<Rightarrow> int \<Rightarrow> rng \<Rightarrow> error + (int \<times> rng)" where
  \<comment> \<open>\<open>random.randint(a, b)\<close>: uniform in \<open>[a, b]\<close>, ValueError on an empty range.\<close>
  "random_randint a b g =
     (if b < a then Inl ValueError
      else Inr (a + int (g 0 mod nat (b - a + 1)), rng_tail g))"

definition random_random :: "rng \<Rightarrow> rat \<times> rng" where
  \<comment> \<open>\<open>random.random()\<close>: a multiple of \<open>2^-53\<close> in \<open>[0, 1)\<close>.\<close>
  "random_random g = (of_nat (g 0 mod 2 ^ 53) / 2 ^ 53, rng_tail g)"

text \<open>
  \<open>random.shuffle(x)\<close> is the library's Fisher-Yates loop:
  \<open>for i in reversed(range(1, len(x))): j = randbelow(i + 1); x[i], x[j] = x[j], x[i]\<close>.
\<close>

primrec shuffle_loop :: "nat \<Rightarrow> 'a list \<Rightarrow> rng \<Rightarrow> 'a list \<times> rng" where
  "shuffle_loop 0 xs g = (xs, g)"
| "shuffle_loop (Suc k) xs g =
     (let i = Suc k; j = g 0 mod (i + 1)
      in shuffle_loop k (xs[i := xs ! j, j := xs ! i]) (rng_tail g))"

definition random_shuffle :: "'a list \<Rightarrow> rng \<Rightarrow> 'a list \<times> rng" where
  "random_shuffle xs g = shuffle_loop (length xs - 1) xs g"

text \<open>
  List subscription with Python's rules: an index in \<open>[-len, 0)\<close> counts from the end,
  anything outside \<open>[-len, len)\<close> raises IndexError.
\<close>

definition py_index :: "nat \<Rightarrow> int \<Rightarrow> error + nat" where
  "py_index n i =
     (if 0 \<le> i \<and> i < int n then Inr (nat i)
      else if - int n \<le> i \<and> i < 0 then Inr (nat (int n + i))
      else Inl IndexError)"

definition py_get :: "'a list \<Rightarrow> int \<Rightarrow> error + 'a" where
  "py_get xs i = ebind (py_index (length xs) i) (\<lambda>k. Inr (xs ! k))"

definition py_get2 :: "'a list list \<Rightarrow> int \<Rightarrow> int \<Rightarrow> error + 'a" where
  \<comment> \<open>\<open>xs[y][x]\<close>\<close>
  "py_get2 xs y x = ebind (py_get xs y) (\<lambda>row. py_get row x)"

definition py_set2 :: "'a list list \<Rightarrow> int \<Rightarrow> int \<Rightarrow> 'a \<Rightarrow> error + 'a list list" where
  \<comment> \<open>\<open>xs[y][x] = v\<close>; the rows are distinct list objects, so only row \<open>y\<close> changes.\<close>
  "py_set2 xs y x v =
     ebind (py_index (length xs) y) (\<lambda>j.
     ebind (py_index (length (xs ! j)) x) (\<lambda>k.
       Inr (xs[j := (xs ! j)[k := v]])))"

definition py_append2 :: "'a list list list \<Rightarrow> int \<Rightarrow> int \<Rightarrow> 'a \<Rightarrow> error + 'a list list list" where
  \<comment> \<open>\<open>xs[y][x].append(v)\<close>; every cell is a list object of its own.\<close>
  "py_append2 xs y x v = ebind (py_get2 xs y x) (\<lambda>cell. py_set2 xs y x (cell @ [v]))"

text \<open>A \<open>for\<close> loop over a list whose body may raise: the first exception ends the loop.\<close>

primrec for_loop :: "'a list \<Rightarrow> ('a \<Rightarrow> 's \<Rightarrow> error + 's) \<Rightarrow> 's \<Rightarrow> error + 's" where
  "for_loop [] body s = Inr s"
| "for_loop (a # as) body s = ebind (body a s) (for_loop as body)"

section \<open>The maze\<close>

text \<open>
  Class \<open>Maze\<close>. Directions are the integers 0 (North), 1 (South), 2 (East), 3 (West).
  The attribute \<open>exit_room\<close> is assigned only after \<open>generate_maze\<close> has run; until
  then it is absent, which is \<open>None\<close> here.
\<close>

record maze =
  width :: int
  height :: int
  cells :: "int list list list"
  visited :: "bool list list"
  exit_room :: "(int \<times> int) option"

definition directions :: "(int \<times> int \<times> int \<times> int) list" where
  \<comment> \<open>dy, dx, dir, opp_dir\<close>
  "directions = [(-1, 0, 0, 1), (1, 0, 1, 0), (0, 1, 2, 3), (0, -1, 3, 2)]"

definition unvisited_body ::
  "maze \<Rightarrow> int \<Rightarrow> int \<Rightarrow> int \<times> int \<times> int \<times> int \<Rightarrow>
   (int \<times> int \<times> int \<times> int) list \<Rightarrow> error + (int \<times> int \<times> int \<times> int) list" where
  \<comment> \<open>lines 22-24, the body of \<open>for dy, dx, d, opp in directions\<close>\<close>
  "unvisited_body m y x dir acc =
     (case dir of (dy, dx, d, opp) \<Rightarrow>
      let ny = y + dy; nx = x + dx in
      if 0 \<le> ny \<and> ny < height m \<and> 0 \<le> nx \<and> nx < width m then
        ebind (py_get2 (visited m) ny nx) (\<lambda>v.
          Inr (if \<not> v then acc @ [(ny, nx, d, opp)] else acc))
      else Inr acc)"

definition unvisited_neighbors ::
  "maze \<Rightarrow> int \<Rightarrow> int \<Rightarrow> error + (int \<times> int \<times> int \<times> int) list" where
  \<comment> \<open>lines 20-24: the in-bounds neighbours of \<open>(y, x)\<close> not yet visited\<close>
  "unvisited_neighbors m y x = for_loop directions (unvisited_body m y x) []"

definition carve ::
  "int list list list \<Rightarrow> int \<Rightarrow> int \<Rightarrow> int \<times> int \<times> int \<times> int \<Rightarrow> error + int list list list" where
  \<comment> \<open>\<open>self.cells[y][x].append(d); self.cells[ny][nx].append(opp)\<close>\<close>
  "carve cs y x cand =
     (case cand of (ny, nx, d, opp) \<Rightarrow>
      ebind (py_append2 cs y x d) (\<lambda>c1. py_append2 c1 ny nx opp))"

definition dfs_step ::
  "maze \<Rightarrow> (int \<times> int) list \<Rightarrow> rng \<Rightarrow> error + (maze \<times> (int \<times> int) list \<times> rng)" where
  \<comment> \<open>one iteration of \<open>while stack\<close> (lines 19-33); the top of the stack is its last element\<close>
  "dfs_step m stack g =
     (case last stack of (y, x) \<Rightarrow>
      ebind (unvisited_neighbors m y x) (\<lambda>un.
      if un \<noteq> [] then
        ebind (random_choice un g) (\<lambda>((ny, nx, d, opp), g').
        ebind (carve (cells m) y x (ny, nx, d, opp)) (\<lambda>cs.
        ebind (py_set2 (visited m) ny nx True) (\<lambda>vs.
          Inr (m\<lparr>cells := cs, visited := vs\<rparr>, stack @ [(ny, nx)], g'))))
      else Inr (m, butlast stack, g)))"

subsection \<open>The search loop terminates\<close>

text \<open>
  Every iteration of \<open>while stack\<close> either marks one more room visited and pushes it, or
  pops the stack: twice the number of unvisited rooms plus the stack height decreases.
\<close>

definition unvisited_count :: "bool list list \<Rightarrow> nat" where
  "unvisited_count vs = sum_list (map (\<lambda>row. count_list row False) vs)"

lemma ebind_simps [simp]:
  "ebind (Inl e) f = Inl e"
  "ebind (Inr v) f = f v"
  by (simp_all add: ebind_def)

lemma ebind_eq_Inr: "ebind r f = Inr y \<longleftrightarrow> (\<exists>v. r = Inr v \<and> f v = Inr y)"
  by (cases r) simp_all

lemma ebind_eq_Inl: "ebind r f = Inl e \<longleftrightarrow> r = Inl e \<or> (\<exists>v. r = Inr v \<and> f v = Inl e)"
  by (cases r) simp_all

lemma count_list_update_True:
  "k < length row \<Longrightarrow> \<not> row ! k \<Longrightarrow> Suc (count_list (row[k := True]) False) = count_list row False"
proof (induction row arbitrary: k)
  case Nil then show ?case by simp
next
  case (Cons a row)
  then show ?case by (cases k) auto
qed

lemma unvisited_count_update:
  "j < length vs \<Longrightarrow> k < length (vs ! j) \<Longrightarrow> \<not> vs ! j ! k \<Longrightarrow>
   Suc (unvisited_count (vs[j := (vs ! j)[k := True]])) = unvisited_count vs"
proof (induction vs arbitrary: j)
  case Nil then show ?case by simp
next
  case (Cons r vs)
  show ?case
  proof (cases j)
    case 0
    with Cons.prems show ?thesis
      using count_list_update_True[of k r] by (simp add: unvisited_count_def)
  next
    case (Suc j')
    with Cons.prems Cons.IH[of j'] show ?thesis
      by (simp add: unvisited_count_def)
  qed
qed

lemma py_index_nonneg: "0 \<le> i \<Longrightarrow> py_index n i = Inr k \<Longrightarrow> k = nat i \<and> nat i < n"
  by (auto simp: py_index_def split: if_splits)

lemma py_index_inrange: "0 \<le> i \<Longrightarrow> nat i < n \<Longrightarrow> py_index n i = Inr (nat i)"
  by (auto simp: py_index_def)

lemma py_get2_nonneg:
  "0 \<le> y \<Longrightarrow> 0 \<le> x \<Longrightarrow> py_get2 xs y x = Inr v \<Longrightarrow>
   nat y < length xs \<and> nat x < length (xs ! nat y) \<and> v = xs ! nat y ! nat x"
  by (auto simp: py_get2_def py_get_def ebind_eq_Inr dest!: py_index_nonneg)

lemma py_get2_inrange:
  "0 \<le> y \<Longrightarrow> 0 \<le> x \<Longrightarrow> nat y < length xs \<Longrightarrow> nat x < length (xs ! nat y) \<Longrightarrow>
   py_get2 xs y x = Inr (xs ! nat y ! nat x)"
  by (simp add: py_get2_def py_get_def py_index_inrange)

lemma py_set2_inrange:
  "0 \<le> y \<Longrightarrow> 0 \<le> x \<Longrightarrow> nat y < length xs \<Longrightarrow> nat x < length (xs ! nat y) \<Longrightarrow>
   py_set2 xs y x v = Inr (xs[nat y := (xs ! nat y)[nat x := v]])"
  by (simp add: py_set2_def py_index_inrange)

definition un_sel :: "maze \<Rightarrow> int \<Rightarrow> int \<Rightarrow> int \<times> int \<times> int \<times> int \<Rightarrow> bool" where
  "un_sel m y x dir = (case dir of (dy, dx, d, opp) \<Rightarrow>
      0 \<le> y + dy \<and> y + dy < height m \<and> 0 \<le> x + dx \<and> x + dx < width m
      \<and> py_get2 (visited m) (y + dy) (x + dx) = Inr False)"

definition dir_tgt :: "int \<Rightarrow> int \<Rightarrow> int \<times> int \<times> int \<times> int \<Rightarrow> int \<times> int \<times> int \<times> int" where
  "dir_tgt y x dir = (case dir of (dy, dx, d, opp) \<Rightarrow> (y + dy, x + dx, d, opp))"

lemma unvisited_body_Inr:
  "unvisited_body m y x a acc = Inr acc' \<Longrightarrow>
   acc' = acc @ map (dir_tgt y x) (filter (un_sel m y x) [a])"
  by (auto simp: unvisited_body_def un_sel_def dir_tgt_def Let_def ebind_eq_Inr
           split: prod.splits if_splits)

lemma unvisited_loop:
  "for_loop ds (unvisited_body m y x) acc0 = Inr r \<Longrightarrow>
   r = acc0 @ map (dir_tgt y x) (filter (un_sel m y x) ds)"
proof (induction ds arbitrary: acc0)
  case Nil then show ?case by simp
next
  case (Cons a ds)
  from Cons.prems obtain acc1 where
    b: "unvisited_body m y x a acc0 = Inr acc1" and l: "for_loop ds (unvisited_body m y x) acc1 = Inr r"
    by (auto simp: ebind_eq_Inr)
  show ?case
    unfolding Cons.IH[OF l] unvisited_body_Inr[OF b] by simp
qed

lemma unvisited_neighbors_eq:
  "unvisited_neighbors m y x = Inr un \<Longrightarrow>
   un = map (dir_tgt y x) (filter (un_sel m y x) directions)"
  unfolding unvisited_neighbors_def by (drule unvisited_loop) simp

lemma random_choice_mem: "random_choice xs g = Inr (a, g') \<Longrightarrow> a \<in> set xs \<and> g' = rng_tail g"
  by (auto simp: random_choice_def split: if_splits)

lemma dfs_step_decreases:
  assumes "stack \<noteq> []" "dfs_step m stack g = Inr (m', stack', g')"
  shows "2 * unvisited_count (visited m') + length stack' < 2 * unvisited_count (visited m) + length stack"
proof -
  obtain y x where top: "last stack = (y, x)" by (cases "last stack") auto
  from assms(2) obtain un where un: "unvisited_neighbors m y x = Inr un"
    by (auto simp: dfs_step_def top ebind_eq_Inr)
  show ?thesis
  proof (cases "un = []")
    case True
    with assms un show ?thesis by (auto simp: dfs_step_def top)
  next
    case False
    with assms(2) un obtain ny nx d opp cs vs where
      ch: "random_choice un g = Inr ((ny, nx, d, opp), g')"
      and vs: "py_set2 (visited m) ny nx True = Inr vs"
      and m': "m' = m\<lparr>cells := cs, visited := vs\<rparr>" and st: "stack' = stack @ [(ny, nx)]"
      by (auto simp: dfs_step_def top ebind_eq_Inr)
    from random_choice_mem[OF ch] have "(ny, nx, d, opp) \<in> set un" by simp
    then obtain dir where "un_sel m y x dir" "dir_tgt y x dir = (ny, nx, d, opp)"
      unfolding unvisited_neighbors_eq[OF un] by auto
    then have nn: "0 \<le> ny" "0 \<le> nx" and g2: "py_get2 (visited m) ny nx = Inr False"
      by (auto simp: un_sel_def dir_tgt_def split: prod.splits)
    from py_get2_nonneg[OF nn g2] have
      r: "nat ny < length (visited m)" "nat nx < length (visited m ! nat ny)" "\<not> visited m ! nat ny ! nat nx"
      by auto
    from vs have "vs = (visited m)[nat ny := (visited m ! nat ny)[nat nx := True]]"
      unfolding py_set2_inrange[OF nn r(1,2)] by simp
    with unvisited_count_update[OF r] have "Suc (unvisited_count vs) = unvisited_count (visited m)"
      by simp
    then show ?thesis by (simp add: m' st)
  qed
qed

lemma ebind_cong [fundef_cong]:
  "r = r' \<Longrightarrow> (\<And>v. r' = Inr v \<Longrightarrow> f v = f' v) \<Longrightarrow> ebind r f = ebind r' f'"
  by (cases r') simp_all

function dfs_loop :: "maze \<Rightarrow> (int \<times> int) list \<Rightarrow> rng \<Rightarrow> error + (maze \<times> rng)" where
  "dfs_loop m stack g =
     (if stack = [] then Inr (m, g)
      else ebind (dfs_step m stack g) (\<lambda>(m', stack', g'). dfs_loop m' stack' g'))"
  by pat_completeness auto

termination
  by (relation "measure (\<lambda>(m, stack, g). 2 * unvisited_count (visited m) + length stack)")
     (auto dest: dfs_step_decreases)

declare dfs_loop.simps [simp del]

subsection \<open>Densification, generation, construction\<close>

definition possible_body ::
  "maze \<Rightarrow> int \<Rightarrow> int \<Rightarrow> int \<times> int \<times> int \<times> int \<Rightarrow>
   (int \<times> int \<times> int \<times> int) list \<Rightarrow> error + (int \<times> int \<times> int \<times> int) list" where
  \<comment> \<open>lines 42-44, the body of the second \<open>for dy, dx, d, opp in directions\<close>\<close>
  "possible_body m y x dir acc =
     (case dir of (dy, dx, d, opp) \<Rightarrow>
      let ny = y + dy; nx = x + dx in
      if 0 \<le> ny \<and> ny < height m \<and> 0 \<le> nx \<and> nx < width m then
        ebind (py_get2 (cells m) y x) (\<lambda>cell.
          Inr (if d \<notin> set cell then acc @ [(ny, nx, d, opp)] else acc))
      else Inr acc)"

definition add_body ::
  "int \<Rightarrow> int \<Rightarrow> (int \<times> int \<times> int \<times> int) list \<Rightarrow> nat \<Rightarrow>
   int list list list \<Rightarrow> error + int list list list" where
  \<comment> \<open>lines 48-50, the body of \<open>for i in range(adds)\<close>\<close>
  "add_body y x possible_adds i cs =
     ebind (py_get possible_adds (int i)) (\<lambda>cand. carve cs y x cand)"

definition densify_cell :: "int \<Rightarrow> int \<Rightarrow> maze \<times> rng \<Rightarrow> error + maze \<times> rng" where
  \<comment> \<open>lines 38-50, the body of the two nested loops over the rooms\<close>
  "densify_cell y x s =
     (case s of (m, g) \<Rightarrow>
      ebind (py_get2 (cells m) y x) (\<lambda>cell.
      let current_degree = int (length cell) in
      if current_degree < 4 then
        ebind (for_loop directions (possible_body m y x) []) (\<lambda>possible_adds.
        case random_shuffle possible_adds g of (shuffled, g') \<Rightarrow>
        let adds = min (max (2 - current_degree) 0) (int (length shuffled)) in
        ebind (for_loop [0..<nat adds] (add_body y x shuffled) (cells m)) (\<lambda>cs.
          Inr (m\<lparr>cells := cs\<rparr>, g')))
      else Inr (m, g)))"

definition densify :: "maze \<Rightarrow> rng \<Rightarrow> error + maze \<times> rng" where
  \<comment> \<open>lines 36-37: \<open>for y in range(self.height): for x in range(self.width)\<close>\<close>
  "densify m g =
     for_loop [0..<nat (height m)]
       (\<lambda>y s. for_loop [0..<nat (width (fst s))] (\<lambda>x. densify_cell (int y) (int x)) s)
       (m, g)"

definition generate_maze :: "maze \<Rightarrow> rng \<Rightarrow> error + maze \<times> rng" where
  "generate_maze m g =
     ebind (py_set2 (visited m) 0 0 True) (\<lambda>vs.
     ebind (dfs_loop (m\<lparr>visited := vs\<rparr>) [(0, 0)] g) (\<lambda>(m1, g1).
       densify m1 g1))"

definition Maze_init :: "int \<Rightarrow> int \<Rightarrow> rng \<Rightarrow> error + maze \<times> rng" where
  \<comment> \<open>\<open>Maze(width, height)\<close>: fresh grids, generation, then the exit room\<close>
  "Maze_init w h g =
     (let m = \<lparr>width = w, height = h,
                cells = replicate (nat h) (replicate (nat w) []),
                visited = replicate (nat h) (replicate (nat w) False),
                exit_room = None\<rparr>
      in ebind (generate_maze m g) (\<lambda>(m', g1).
         ebind (random_randint 0 (h - 1) g1) (\<lambda>(ey, g2).
         ebind (random_randint 0 (w - 1) g2) (\<lambda>(ex, g3).
           Inr (m'\<lparr>exit_room := Some (ey, ex)\<rparr>, g3)))))"

definition neighbors_body ::
  "maze \<Rightarrow> int \<Rightarrow> int \<Rightarrow> (string \<times> int \<times> int) list \<Rightarrow> int \<Rightarrow> (string \<times> int \<times> int) list" where
  \<comment> \<open>lines 56-63, the body of \<open>for d in self.cells[y][x]\<close>\<close>
  "neighbors_body m y x neighbors d =
     (if d = 0 \<and> y - 1 \<ge> 0 then neighbors @ [(''North'', y - 1, x)]
      else if d = 1 \<and> y + 1 < height m then neighbors @ [(''South'', y + 1, x)]
      else if d = 2 \<and> x + 1 < width m then neighbors @ [(''East'', y, x + 1)]
      else if d = 3 \<and> x - 1 \<ge> 0 then neighbors @ [(''West'', y, x - 1)]
      else neighbors)"

definition get_neighbors :: "maze \<Rightarrow> int \<Rightarrow> int \<Rightarrow> error + (string \<times> int \<times> int) list" where
  "get_neighbors m y x =
     ebind (py_get2 (cells m) y x) (\<lambda>cell. Inr (foldl (neighbors_body m y x) [] cell))"

section \<open>Strings\<close>

text \<open>
  Text is a \<open>string\<close> over 8-bit characters. Input lines are taken to be ASCII; case and
  whitespace follow Python's rules on ASCII. The one non-ASCII character of the tables
  below is written as its UTF-8 bytes.
\<close>

fun starts_with :: "string \<Rightarrow> string \<Rightarrow> bool" where
  "starts_with s [] = True"
| "starts_with [] (c # cs) = False"
| "starts_with (a # s) (c # cs) = (a = c \<and> starts_with s cs)"

fun str_contains :: "string \<Rightarrow> string \<Rightarrow> bool" where
  \<comment> \<open>\<open>sub in s\<close>\<close>
  "str_contains [] sub = (sub = [])"
| "str_contains (a # s) sub = (starts_with (a # s) sub \<or> str_contains s sub)"

fun split_aux :: "char \<Rightarrow> string \<Rightarrow> string \<Rightarrow> string \<Rightarrow> string list" where
  "split_aux s0 ss cur [] = [cur]"
| "split_aux s0 ss cur (c # cs) =
     (if c = s0 \<and> starts_with cs ss then cur # split_aux s0 ss [] (drop (length ss) cs)
      else split_aux s0 ss (cur @ [c]) cs)"

definition py_split :: "string \<Rightarrow> string \<Rightarrow> error + string list" where
  \<comment> \<open>\<open>s.split(sep)\<close>: ValueError on the empty separator\<close>
  "py_split s sep = (case sep of [] \<Rightarrow> Inl ValueError | s0 # ss \<Rightarrow> Inr (split_aux s0 ss [] s))"

definition is_space :: "char \<Rightarrow> bool" where
  "is_space c = (let n = (of_char c :: nat) in (9 \<le> n \<and> n \<le> 13) \<or> (28 \<le> n \<and> n \<le> 32))"

definition py_strip :: "string \<Rightarrow> string" where
  "py_strip s = rev (dropWhile is_space (rev (dropWhile is_space s)))"

definition lower_char :: "char \<Rightarrow> char" where
  "lower_char c =
     (case map_of (zip ''ABCDEFGHIJKLMNOPQRSTUVWXYZ'' ''abcdefghijklmnopqrstuvwxyz'') c of
        Some l \<Rightarrow> l
      | None \<Rightarrow> c)"

definition py_lower :: "string \<Rightarrow> string" where
  "py_lower s = map lower_char s"

definition digit_value :: "char \<Rightarrow> nat option" where
  "digit_value c = (let n = (of_char c :: nat) in if 48 \<le> n \<and> n \<le> 57 then Some (n - 48) else None)"

fun parse_digits :: "nat \<Rightarrow> string \<Rightarrow> nat option" where
  "parse_digits acc [] = Some acc"
| "parse_digits acc (c # cs) =
     (case digit_value c of None \<Rightarrow> None | Some d \<Rightarrow> parse_digits (10 * acc + d) cs)"

definition py_int :: "string \<Rightarrow> error + int" where
  \<comment> \<open>\<open>int(s)\<close> on an optionally signed decimal literal with surrounding whitespace;
      everything else is a ValueError (digit-group underscores are not modelled)\<close>
  "py_int s =
     (let t = py_strip s;
          (neg, ds) = (case t of c # cs \<Rightarrow> if c = CHR ''-'' then (True, cs)
                                         else if c = CHR ''+'' then (False, cs) else (False, t)
                              | [] \<Rightarrow> (False, t))
      in if ds = [] then Inl ValueError
         else case parse_digits 0 ds of
                None \<Rightarrow> Inl ValueError
              | Some n \<Rightarrow> Inr (if neg then - int n else int n))"

fun str_nat :: "nat \<Rightarrow> string" where
  "str_nat n = (if n < 10 then [''0123456789'' ! n] else str_nat (n div 10) @ [''0123456789'' ! (n mod 10)])"

declare str_nat.simps [simp del]

definition str_int :: "int \<Rightarrow> string" where
  \<comment> \<open>\<open>str(i)\<close>, as the f-strings format an integer\<close>
  "str_int i = (if i < 0 then CHR ''-'' # str_nat (nat (- i)) else str_nat (nat i))"

definition repr_str :: "string \<Rightarrow> string" where
  \<comment> \<open>\<open>repr(s)\<close> for a string without quotes, backslashes or control characters\<close>
  "repr_str s = [CHR 0x27] @ s @ [CHR 0x27]"

fun join_comma :: "string list \<Rightarrow> string" where
  "join_comma [] = []"
| "join_comma [s] = s"
| "join_comma (s # t # ts) = s @ '', '' @ join_comma (t # ts)"

definition str_list :: "string list \<Rightarrow> string" where
  \<comment> \<open>\<open>str(xs)\<close> of a list of strings\<close>
  "str_list xs = ''['' @ join_comma (map repr_str xs) @ '']''"

section \<open>Narrative tables\<close>

definition room_descriptions :: "string list" where
  "room_descriptions =
     [''A dusty chamber holds an old chest, faintly glowing with magic.'',
      ''A fountain bubbles with enchanted water in this dim room.'',
      ''Skeletons of fallen warriors are scattered across the floor.'',
      ''Ancient tomes of forgotten lore line a library'' @ [CHR 0xE2, CHR 0x80, CHR 0x99] @ ''s shelves.'',
      ''A small altar holds a glowing idol of a forgotten god.'',
      ''Torchlight flickers on walls etched with arcane runes.'',
      ''A trapdoor in the ceiling leads to unknown heights.'',
      ''Glowing mushrooms grow in clusters on the damp floor.'',
      ''An abandoned campfire smolders, left by recent travelers.'',
      ''Webs cover everything, hinting at giant spiders nearby.'',
      ''A mirror reflects your image with a twist of illusion.'',
      ''Barrels and crates are stacked, possibly hiding treasure.'',
      ''A fierce dragon statue stands sentinel in the room.'',
      ''Vines creep along the walls, pulsing with druidic magic.'',
      ''Dripping water echoes in this cavernous chamber.'',
      ''Rusty weapons rest on racks, some still sharp.'',
      ''A puzzle box on a pedestal challenges your wits.'',
      ''Ghostly whispers of restless spirits fill the air.'',
      ''Enchanted flowers bloom in a vibrant bed.'',
      ''Chains dangle from the ceiling, rattling softly.'',
      ''A map etched into the stone floor hints at dungeon secrets.'',
      ''Candles burn brightly in a dark ritual circle.'',
      ''A pile of treasures glints temptingly in the corner.'',
      ''A deep well descends into abyssal darkness.'',
      ''Shadows dance as if alive, hiding unseen threats.'']"

definition choices :: "string list" where
  "choices =
     [''Open the chest?'',
      ''Drink from the fountain?'',
      ''Disturb the skeletons?'',
      ''Read a random tome?'',
      ''Touch the idol?'',
      ''Trace the runes?'',
      ''Climb to the trapdoor?'',
      ''Eat a mushroom?'',
      ''Search the campfire ashes?'',
      ''Clear the webs?'',
      ''Stare into the mirror?'',
      ''Search the barrels?'',
      ''Examine the statue?'',
      ''Pull the vines?'',
      ''Investigate the dripping?'',
      ''Take a weapon?'',
      ''Open the puzzle box?'',
      ''Respond to the whispers?'',
      ''Pick a flower?'',
      ''Rattle the chains?'',
      ''Study the map?'',
      ''Blow out the candles?'',
      ''Dig into the treasures?'',
      ''Drop a coin into the well?'',
      ''Confront the shadows?'']"

definition positive_outcomes :: "string list" where
  "positive_outcomes =
     [''You find 20 gold pieces!'',
      ''Your health is restored by 10!'',
      ''You gain a healing potion!'',
      ''Your strength increases by 1!'',
      ''You find a sharp sword!'',
      ''You gain 50 experience points!'',
      ''You find a mysterious key!'']"

definition negative_outcomes :: "string list" where
  "negative_outcomes =
     [''It's trapped! Lose 15 health.'',
      ''Poisoned! Lose 10 health.'',
      ''Cursed! Lose 10 gold.'',
      ''A monster attacks! Lose 20 health.'']"

definition even_outcomes :: "string list" where
  "even_outcomes =
     [''Nothing happens.'']"

definition combat_outcomes :: "string list" where
  "combat_outcomes =
     [''A goblin leaps from the shadows! Fight?'',
      ''A skeleton rises to attack! Engage?'',
      ''A giant rat lunges at you! Battle?'',
      ''A wraith forms from the shadows! Combat?'']"

section \<open>The player\<close>

record player =
  health :: int
  strength :: int
  gold :: int
  experience :: int
  inventory :: "string list"
  position :: "int \<times> int"
  previous_door :: "string option"

definition Player_init :: player where
  "Player_init = \<lparr>health = 100, strength = 10, gold = 0, experience = 0, inventory = [],
                   position = (0, 0), previous_door = None\<rparr>"

definition is_alive :: "player \<Rightarrow> bool" where
  "is_alive p = (health p > 0)"

definition combat_gains :: "string list" where
  "combat_gains = [''You gain 30 gold!'', ''You gain 100 experience!'', ''You find a potion!'']"

definition combat_gain :: "string \<Rightarrow> player \<Rightarrow> player" where
  \<comment> \<open>lines 173-178\<close>
  "combat_gain gain p =
     (if str_contains gain ''gold'' then p\<lparr>gold := gold p + 30\<rparr>
      else if str_contains gain ''experience'' then p\<lparr>experience := experience p + 100\<rparr>
      else if str_contains gain ''potion'' then p\<lparr>inventory := inventory p @ [''Healing Potion'']\<rparr>
      else p)"

text \<open>
  The turn loop of \<open>Player.combat\<close> (lines 165-186) has no turn cap. It is defined as a
  partial function: \<open>None\<close> is a loop that never returns. The state is the player, the
  random source and the lines printed so far; the result carries the returned flag.
\<close>

partial_function (option) combat_loop ::
  "int \<Rightarrow> int \<Rightarrow> player \<times> rng \<times> string list \<Rightarrow>
   (error + bool \<times> player \<times> rng \<times> string list) option" where
  "combat_loop monster_health monster_strength s =
     (case s of (p, g, out) \<Rightarrow>
      if health p > 0 \<and> monster_health > 0 then
        (case random_randint 1 (strength p) g of
           Inl e \<Rightarrow> Some (Inl e)
         | Inr (damage, g1) \<Rightarrow>
             let mh = monster_health - damage;
                 out1 = out @ [''You deal '' @ str_int damage @ '' damage. Monster health: ''
                               @ str_int (max 0 mh)]
             in if mh \<le> 0 then
                  Some (ebind (random_choice combat_gains g1) (\<lambda>(gain, g2).
                    Inr (True, combat_gain gain p, g2, out1 @ [''You win the combat!'', gain])))
                else
                  (case random_randint 1 monster_strength g1 of
                     Inl e \<Rightarrow> Some (Inl e)
                   | Inr (damage2, g2) \<Rightarrow>
                       let p' = p\<lparr>health := health p - damage2\<rparr>
                       in combat_loop mh monster_strength
                            (p', g2, out1 @ [''Monster deals '' @ str_int damage2
                                             @ '' damage. Your health: '' @ str_int (max 0 (health p'))])))
      else if health p \<le> 0 then Some (Inr (False, p, g, out @ [''You lose the combat and die.'']))
      else Some (Inr (True, p, g, out)))"

declare combat_loop.simps [code]

text \<open>Sequencing into a computation that may fail to return.\<close>

definition rbind :: "error + 'a \<Rightarrow> ('a \<Rightarrow> (error + 'b) option) \<Rightarrow> (error + 'b) option" where
  "rbind r f = (case r of Inl e \<Rightarrow> Some (Inl e) | Inr v \<Rightarrow> f v)"

definition pbind ::
  "(error + 'a) option \<Rightarrow> ('a \<Rightarrow> (error + 'b) option) \<Rightarrow> (error + 'b) option" where
  "pbind r f = (case r of None \<Rightarrow> None | Some r' \<Rightarrow> rbind r' f)"

definition combat ::
  "player \<times> rng \<times> string list \<Rightarrow> (error + bool \<times> player \<times> rng \<times> string list) option" where
  \<comment> \<open>\<open>Player.combat\<close>, lines 161-186\<close>
  "combat s =
     (case s of (p, g, out) \<Rightarrow>
      rbind (random_randint 20 50 g) (\<lambda>(monster_health, g1).
      rbind (random_randint 5 15 g1) (\<lambda>(monster_strength, g2).
        combat_loop monster_health monster_strength
          (p, g2, out @ [''You enter combat! Monster has '' @ str_int monster_health
                         @ '' health and '' @ str_int monster_strength @ '' strength.'']))))"

section \<open>The game loop\<close>

definition apply_positive :: "string \<Rightarrow> player \<Rightarrow> player" where
  \<comment> \<open>lines 253-267: the effect is selected by the words of the outcome text\<close>
  "apply_positive outcome p =
     (if str_contains outcome ''gold'' then p\<lparr>gold := gold p + 20\<rparr>
      else if str_contains outcome ''health'' then p\<lparr>health := health p + 10\<rparr>
      else if str_contains outcome ''potion'' then p\<lparr>inventory := inventory p @ [''Healing Potion'']\<rparr>
      else if str_contains outcome ''strength'' then p\<lparr>strength := strength p + 1\<rparr>
      else if str_contains outcome ''sword'' then
        (p\<lparr>inventory := inventory p @ [''Sword'']\<rparr>)\<lparr>strength := strength p + 2\<rparr>
      else if str_contains outcome ''experience'' then p\<lparr>experience := experience p + 50\<rparr>
      else if str_contains outcome ''key'' then p\<lparr>inventory := inventory p @ [''Key'']\<rparr>
      else p)"

definition apply_negative :: "string \<Rightarrow> player \<Rightarrow> error + player" where
  \<comment> \<open>lines 271-275: the health loss is parsed back out of the outcome text\<close>
  "apply_negative outcome p =
     (if str_contains outcome ''health'' then
        ebind (py_split outcome ''Lose '') (\<lambda>parts.
        ebind (py_get parts 1) (\<lambda>rest.
        ebind (py_split rest '' '') (\<lambda>ws.
        ebind (py_get ws 0) (\<lambda>w.
        ebind (py_int w) (\<lambda>loss.
          Inr (p\<lparr>health := health p - loss\<rparr>))))))
      else if str_contains outcome ''gold'' then Inr (p\<lparr>gold := max 0 (gold p - 10)\<rparr>)
      else Inr p)"

text \<open>
  The state of a session: the player, the set \<open>visited\<close> of \<open>play_game\<close>, the random
  source, the lines still to be read from standard input (the empty list is the end of
  the stream) and the lines printed so far. Every \<open>print\<close> call adds one entry to the
  lines printed, and so does the prompt of an \<open>input(prompt)\<close> call, which is written
  before the read. \<open>flow\<close> says how a part of the loop body ends: by falling through to
  the next statement, by \<open>continue\<close> or by \<open>break\<close>.
\<close>

datatype flow = Next | Continue | Break

record game =
  player :: player
  visited_set :: "(int \<times> int) set"
  rand :: rng
  stdin :: "string list"
  stdout :: "string list"

definition say :: "string \<Rightarrow> game \<Rightarrow> game" where
  "say line gs = gs\<lparr>stdout := stdout gs @ [line]\<rparr>"

definition read_input :: "game \<Rightarrow> (string \<times> game) option" where
  \<comment> \<open>\<open>input()\<close>: \<open>None\<close> is EOFError\<close>
  "read_input gs = (case stdin gs of [] \<Rightarrow> None | l # ls \<Rightarrow> Some (l, gs\<lparr>stdin := ls\<rparr>))"

definition set_health :: "int \<Rightarrow> game \<Rightarrow> game" where
  "set_health h gs = gs\<lparr>player := (player gs)\<lparr>health := h\<rparr>\<rparr>"

definition yes_options :: "string list" where
  "yes_options = [''yes'', ''y'']"

definition no_options :: "string list" where
  "no_options = [''no'', ''n'']"

definition eof_message :: string where
  "eof_message = ''Input stream closed. Exiting game.''"

definition please_message :: string where
  "please_message = ''Please enter 'yes', 'y', 'no', or 'n'.''"

definition escape_message :: string where
  "escape_message = ''You have found the hidden exit room! You escape the dungeon!''"

definition final_stats :: "player \<Rightarrow> string" where
  "final_stats p =
     ''Final stats: Health '' @ str_int (health p) @ '', Strength '' @ str_int (strength p)
     @ '', Gold '' @ str_int (gold p) @ '', Experience '' @ str_int (experience p)
     @ '', Inventory: '' @ str_list (inventory p)"

text \<open>
  The thresholds \<open>0.1\<close> and \<open>0.95\<close> are the exact values of the floating-point
  literals; \<open>0.75\<close> is exact.
\<close>

definition float_0_1 :: rat where
  "float_0_1 = 3602879701896397 / 36028797018963968"

definition float_0_75 :: rat where
  "float_0_75 = 3 / 4"

definition float_0_95 :: rat where
  "float_0_95 = 4278419646001971 / 4503599627370496"

definition positive_branch :: "game \<Rightarrow> error + flow \<times> game" where
  \<comment> \<open>lines 251-267\<close>
  "positive_branch gs =
     ebind (random_choice positive_outcomes (rand gs)) (\<lambda>(outcome, g').
       Inr (Next, (say outcome (gs\<lparr>rand := g'\<rparr>))\<lparr>player := apply_positive outcome (player gs)\<rparr>))"

definition negative_branch :: "game \<Rightarrow> error + flow \<times> game" where
  \<comment> \<open>lines 269-275\<close>
  "negative_branch gs =
     ebind (random_choice negative_outcomes (rand gs)) (\<lambda>(outcome, g').
     ebind (apply_negative outcome (player gs)) (\<lambda>p.
       Inr (Next, (say outcome (gs\<lparr>rand := g'\<rparr>))\<lparr>player := p\<rparr>)))"

definition even_branch :: "game \<Rightarrow> error + flow \<times> game" where
  \<comment> \<open>line 277\<close>
  "even_branch gs =
     ebind (random_choice even_outcomes (rand gs)) (\<lambda>(outcome, g').
       Inr (Next, say outcome (gs\<lparr>rand := g'\<rparr>)))"

definition combat_branch :: "game \<Rightarrow> (error + flow \<times> game) option" where
  \<comment> \<open>lines 232-249\<close>
  "combat_branch gs =
     rbind (random_choice combat_outcomes (rand gs)) (\<lambda>(combat_choice, g1).
     let gs1 = say ''Fight? (yes/no): '' (say combat_choice (gs\<lparr>rand := g1\<rparr>)) in
     case read_input gs1 of
       None \<Rightarrow> Some (Inr (Break, say eof_message gs1))
     | Some (line, gs2) \<Rightarrow>
         let fight_dec = py_lower (py_strip line) in
         if fight_dec \<notin> set (yes_options @ no_options) then
           Some (Inr (Continue, say please_message gs2))
         else if fight_dec \<in> set yes_options then
           pbind (combat (player gs2, rand gs2, stdout gs2)) (\<lambda>(won, p, g, out).
             Some (Inr (if \<not> won then Break else Next,
                        gs2\<lparr>player := p, rand := g, stdout := out\<rparr>)))
         else
           Some (Inr (Next, set_health (health (player gs2) - 10)
                              (say ''You flee, but take 10 damage.'' gs2))))"

definition event_yes :: "game \<Rightarrow> (error + flow \<times> game) option" where
  \<comment> \<open>lines 224-280, the body of \<open>if decision in yes_options\<close>\<close>
  "event_yes gs =
     rbind (random_randint 1 100 (rand gs)) (\<lambda>(r, g1).
     let gs1 = gs\<lparr>rand := g1\<rparr> in
     if r = 1 then
       Some (Inr (Break, set_health 0 (say ''Catastrophic failure! You die instantly.'' gs1)))
     else
       case random_random (rand gs1) of (rand_v, g2) \<Rightarrow>
       let gs2 = gs1\<lparr>rand := g2\<rparr> in
       pbind (if rand_v < float_0_1 then combat_branch gs2
              else if rand_v < float_0_75 then Some (positive_branch gs2)
              else if rand_v < float_0_95 then Some (negative_branch gs2)
              else Some (even_branch gs2)) (\<lambda>(fl, gs3).
         if fl \<noteq> Next then Some (Inr (fl, gs3))
         else if \<not> is_alive (player gs3) then Some (Inr (Break, gs3))
         else Some (Inr (Next, gs3))))"

definition room_event :: "game \<Rightarrow> int \<Rightarrow> int \<Rightarrow> int \<Rightarrow> (error + flow \<times> game) option" where
  \<comment> \<open>lines 206-280, the body of \<open>if (y, x) not in visited\<close>\<close>
  "room_event gs y x room_id =
     (let gs1 = gs\<lparr>visited_set := insert (y, x) (visited_set gs)\<rparr> in
      rbind (py_get room_descriptions room_id) (\<lambda>description.
      let gs2 = say (CHR 0x0A # description) gs1 in
      rbind (py_get choices room_id) (\<lambda>choice_text.
      let gs3 = say (''Do you want to '' @ choice_text @ '' (yes/no)?'') gs2 in
      case read_input gs3 of
        None \<Rightarrow> Some (Inr (Break, say eof_message gs3))
      | Some (line, gs4) \<Rightarrow>
          let decision = py_lower (py_strip line) in
          if decision \<notin> set (yes_options @ no_options) then
            Some (Inr (Continue, say please_message gs4))
          else if decision \<in> set yes_options then event_yes gs4
          else Some (Inr (Next, gs4)))))"

definition door_body ::
  "(string \<times> string \<times> int \<times> int) list \<times> game \<Rightarrow> nat \<times> string \<times> int \<times> int \<Rightarrow>
   (string \<times> string \<times> int \<times> int) list \<times> game" where
  \<comment> \<open>lines 290-291; the dictionary \<open>door_options\<close> is an association list\<close>
  "door_body s e =
     (case (s, e) of ((door_options, gs), (i, dir_name, ny, nx)) \<Rightarrow>
        (AList.update (str_int (int i)) (dir_name, ny, nx) door_options,
         say (str_int (int i) @ ''. '' @ dir_name) gs))"

definition door_phase :: "maze \<Rightarrow> int \<Rightarrow> int \<Rightarrow> game \<Rightarrow> error + flow \<times> game" where
  \<comment> \<open>lines 283-309\<close>
  "door_phase m y x gs =
     ebind (get_neighbors m y x) (\<lambda>neighbors.
     if neighbors = [] then Inr (Break, say ''Error: No valid doors available. Ending game.'' gs)
     else
       case foldl door_body ([], say ''Available doors:'' gs) (enumerate 1 neighbors) of
         (door_options, gs2) \<Rightarrow>
       let gs3 = say ''Choose a door (number): '' gs2 in
       case read_input gs3 of
         None \<Rightarrow> Inr (Break, say eof_message gs3)
       | Some (line, gs4) \<Rightarrow>
           let choice = py_strip line in
           case map_of door_options choice of
             None \<Rightarrow>
               Inr (Continue, say (''Please enter a number between 1 and ''
                                   @ str_int (int (length door_options)) @ ''.'') gs4)
           | Some (dir_name, ny, nx) \<Rightarrow>
               ebind (random_randint 1 100 (rand gs4)) (\<lambda>(r, g1).
               let gs5 = gs4\<lparr>rand := g1\<rparr> in
               if r = 1 then
                 Inr (Break, set_health 0
                               (say ''A deadly trap triggers as you open the door! You die.'' gs5))
               else
                 Inr (Next, gs5\<lparr>player := (player gs5)\<lparr>previous_door := Some dir_name,
                                                          position := (ny, nx)\<rparr>\<rparr>)))"

definition game_step :: "maze \<Rightarrow> game \<Rightarrow> (error + flow \<times> game) option" where
  \<comment> \<open>lines 197-309, one iteration of \<open>while player.is_alive()\<close>\<close>
  "game_step m gs =
     (case position (player gs) of (y, x) \<Rightarrow>
      let room_id = y * width m + x in
      if Some (y, x) = exit_room m then
        Some (Inr (Break, say (final_stats (player gs)) (say escape_message gs)))
      else
        pbind (if (y, x) \<notin> visited_set gs then room_event gs y x room_id
               else Some (Inr (Next, gs))) (\<lambda>(fl, gs1).
          if fl \<noteq> Next then Some (Inr (fl, gs1)) else Some (door_phase m y x gs1)))"

partial_function (option) game_loop :: "maze \<Rightarrow> game \<Rightarrow> (error + game) option" where
  "game_loop m gs =
     (if is_alive (player gs) then
        (case game_step m gs of
           None \<Rightarrow> None
         | Some (Inl e) \<Rightarrow> Some (Inl e)
         | Some (Inr (fl, gs')) \<Rightarrow> if fl = Break then Some (Inr gs') else game_loop m gs')
      else Some (Inr gs))"

declare game_loop.simps [code]

definition finish :: "game \<Rightarrow> game" where
  \<comment> \<open>lines 311-315\<close>
  "finish gs =
     say (final_stats (player gs))
       (say (if is_alive (player gs) then ''Congratulations on escaping!''
             else ''Game over. You died.'') gs)"

definition new_game :: "rng \<Rightarrow> string list \<Rightarrow> game" where
  \<comment> \<open>lines 191-194: a fresh player, nothing visited, the welcome line\<close>
  "new_game g inputs =
     \<lparr>player = Player_init, visited_set = {}, rand = g, stdin = inputs,
      stdout = [''Welcome to the Dungeon Adventure! Explore the maze, make choices, and find the exit.'']\<rparr>"

definition play_game :: "rng \<Rightarrow> string list \<Rightarrow> (error + game) option" where
  "play_game g inputs =
     rbind (Maze_init 5 5 g) (\<lambda>(m, g1).
     pbind (game_loop m (new_game g1 inputs)) (\<lambda>gs'. Some (Inr (finish gs'))))"

section \<open>Outcome effects\<close>

text \<open>
  The effect fixed for each outcome, by its index in \<open>positive_outcomes\<close> and
  \<open>negative_outcomes\<close>, as the specification lists them: 20 gold, 10 health, a potion,
  1 strength, a sword with 2 strength, 50 experience, a key; and the loss of 15 health,
  10 health, 10 gold (not below 0), 20 health.
\<close>

definition positive_reward :: "nat \<Rightarrow> player \<Rightarrow> player" where
  "positive_reward i p =
     (if i = 0 then p\<lparr>gold := gold p + 20\<rparr>
      else if i = 1 then p\<lparr>health := health p + 10\<rparr>
      else if i = 2 then p\<lparr>inventory := inventory p @ [''Healing Potion'']\<rparr>
      else if i = 3 then p\<lparr>strength := strength p + 1\<rparr>
      else if i = 4 then p\<lparr>inventory := inventory p @ [''Sword''], strength := strength p + 2\<rparr>
      else if i = 5 then p\<lparr>experience := experience p + 50\<rparr>
      else p\<lparr>inventory := inventory p @ [''Key'']\<rparr>)"

definition negative_penalty :: "nat \<Rightarrow> player \<Rightarrow> player" where
  "negative_penalty i p =
     (if i = 0 then p\<lparr>health := health p - 15\<rparr>
      else if i = 1 then p\<lparr>health := health p - 10\<rparr>
      else if i = 2 then p\<lparr>gold := max 0 (gold p - 10)\<rparr>
      else p\<lparr>health := health p - 20\<rparr>)"

lemma lt7_cases: "i < (7::nat) \<Longrightarrow> i = 0 \<or> i = 1 \<or> i = 2 \<or> i = 3 \<or> i = 4 \<or> i = 5 \<or> i = 6"
  by arith

lemma lt4_cases: "i < (4::nat) \<Longrightarrow> i = 0 \<or> i = 1 \<or> i = 2 \<or> i = 3"
  by arith

lemma apply_positive_table:
  assumes "i < 7"
  shows "apply_positive (positive_outcomes ! i) p = positive_reward i p"
  using lt7_cases[OF assms]
  by (elim disjE) (simp_all add: positive_outcomes_def apply_positive_def positive_reward_def)

lemma py_int_simps:
  "py_int ''15'' = Inr 15" "py_int ''10'' = Inr 10" "py_int ''20'' = Inr 20"
  by (simp_all add: py_int_def py_strip_def is_space_def digit_value_def)

lemma apply_negative_table:
  assumes "i < 4"
  shows "apply_negative (negative_outcomes ! i) p = Inr (negative_penalty i p)"
  using lt4_cases[OF assms]
  by (elim disjE)
     (simp_all add: negative_outcomes_def apply_negative_def negative_penalty_def py_split_def
        py_get_def py_index_def py_int_simps)

text \<open>
  C6. Whatever the random source draws, the positive branch applies to the player exactly
  the reward of the outcome drawn, and the negative branch exactly its penalty: the three
  health penalties are 15, 10 and 20, the curse takes 10 gold and stops at 0. Nothing
  else of the session changes but the random source and the line printed.
\<close>

theorem outcome_draw_applies_its_effect:
  "positive_branch gs =
     Inr (Next, (say (positive_outcomes ! (rand gs 0 mod 7)) (gs\<lparr>rand := rng_tail (rand gs)\<rparr>))
                  \<lparr>player := positive_reward (rand gs 0 mod 7) (player gs)\<rparr>)
   \<and> negative_branch gs =
     Inr (Next, (say (negative_outcomes ! (rand gs 0 mod 4)) (gs\<lparr>rand := rng_tail (rand gs)\<rparr>))
                  \<lparr>player := negative_penalty (rand gs 0 mod 4) (player gs)\<rparr>)"
proof -
  have lp: "length positive_outcomes = 7" and ln: "length negative_outcomes = 4"
    by (simp_all add: positive_outcomes_def negative_outcomes_def)
  have p: "positive_outcomes \<noteq> []" and n: "negative_outcomes \<noteq> []"
    using lp ln by auto
  show ?thesis
    by (simp add: positive_branch_def negative_branch_def random_choice_def p n lp ln
          apply_positive_table apply_negative_table)
qed

section \<open>Combat terminates\<close>

lemma random_randint_ok:
  "a \<le> b \<Longrightarrow> random_randint a b g = Inr (a + int (g 0 mod nat (b - a + 1)), rng_tail g)"
  by (simp add: random_randint_def)

lemma random_randint_range:
  assumes "random_randint a b g = Inr (v, g')"
  shows "a \<le> v \<and> v \<le> b"
proof -
  from assms have ab: "a \<le> b" by (auto simp: random_randint_def split: if_splits)
  then have "0 < nat (b - a + 1)" by simp
  then have "g 0 mod nat (b - a + 1) < nat (b - a + 1)" by (rule mod_less_divisor)
  then have "int (g 0 mod nat (b - a + 1)) < b - a + 1" using ab by linarith
  moreover from assms ab have "v = a + int (g 0 mod nat (b - a + 1))"
    by (simp add: random_randint_def)
  ultimately show ?thesis by simp
qed

lemma combat_loop_returns:
  assumes "1 \<le> strength p" "1 \<le> monster_strength"
  shows "\<exists>r. combat_loop monster_health monster_strength (p, g, out) = Some (Inr r)"
  using assms
proof (induction "nat monster_health" arbitrary: monster_health p g out rule: less_induct)
  case less
  show ?case
  proof (cases "health p > 0 \<and> monster_health > 0")
    case False
    then show ?thesis by (subst combat_loop.simps) auto
  next
    case True
    obtain damage g1 where d: "random_randint 1 (strength p) g = Inr (damage, g1)"
      using less.prems(1) by (simp add: random_randint_def)
    from random_randint_range[OF d] have d1: "1 \<le> damage" by simp
    show ?thesis
    proof (cases "monster_health - damage \<le> 0")
      case win: True
      have "combat_gains \<noteq> []" by (simp add: combat_gains_def)
      then obtain gain g2 where c: "random_choice combat_gains g1 = Inr (gain, g2)"
        by (simp add: random_choice_def)
      show ?thesis
        using True d win c by (subst combat_loop.simps) (auto simp: Let_def)
    next
      case False
      obtain damage2 g2 where d2: "random_randint 1 monster_strength g1 = Inr (damage2, g2)"
        using less.prems(2) by (simp add: random_randint_def)
      have "nat (monster_health - damage) < nat monster_health"
        using d1 False by linarith
      from less.hyps[OF this] less.prems(2)
      have ih: "\<And>p' g' out'. 1 \<le> strength p' \<Longrightarrow>
          \<exists>r. combat_loop (monster_health - damage) monster_strength (p', g', out') = Some (Inr r)"
        by blast
      have "1 \<le> strength (p\<lparr>health := health p - damage2\<rparr>)"
        using less.prems(1) by simp
      note step = ih[OF this]
      show ?thesis
        using True d False d2 by (subst combat_loop.simps) (simp add: Let_def step del: split_paired_Ex)
    qed
  qed
qed

text \<open>
  Every turn prints at most two lines and takes at least 1 from the monster's health, so
  the lines a combat prints count its turns.
\<close>

lemma combat_loop_lines:
  "combat_loop monster_health monster_strength (p, g, out) = Some (Inr (won, p', g', out'))
   \<Longrightarrow> length out' \<le> length out + 2 * nat monster_health + 1"
proof (induction "nat monster_health" arbitrary: monster_health p g out rule: less_induct)
  case less
  note res = less.prems
  show ?case
  proof (cases "health p > 0 \<and> monster_health > 0")
    case False
    with res show ?thesis
      by (subst (asm) combat_loop.simps) (auto split: if_splits)
  next
    case True
    show ?thesis
    proof (cases "random_randint 1 (strength p) g")
      case (Inl e)
      with res True show ?thesis by (subst (asm) combat_loop.simps) simp
    next
      case (Inr a)
      obtain damage g1 where a: "a = (damage, g1)" by (cases a) auto
      from random_randint_range[OF Inr[unfolded a]] have d1: "1 \<le> damage" by simp
      show ?thesis
      proof (cases "monster_health - damage \<le> 0")
        case win: True
        from True have "1 \<le> nat monster_health" by linarith
        with res True Inr a win show ?thesis
          by (subst (asm) combat_loop.simps) (auto simp: Let_def ebind_eq_Inr)
      next
        case False
        show ?thesis
        proof (cases "random_randint 1 monster_strength g1")
          case (Inl e)
          with res True Inr a False show ?thesis
            by (subst (asm) combat_loop.simps) (simp add: Let_def)
        next
          case b: (Inr b)
          obtain damage2 g2 where b2: "b = (damage2, g2)" by (cases b) auto
          have lt: "nat (monster_health - damage) < nat monster_health"
            using d1 False by linarith
          note unf = combat_loop.simps[of monster_health monster_strength "(p, g, out)"]
          from res[unfolded unf] True Inr a False b b2
          have "\<exists>out2. combat_loop (monster_health - damage) monster_strength
               (p\<lparr>health := health p - damage2\<rparr>, g2, out2) = Some (Inr (won, p', g', out'))
               \<and> length out2 = length out + 2"
            by (simp add: Let_def) (rule exI, rule conjI, assumption, simp)
          then obtain out2 where
            "combat_loop (monster_health - damage) monster_strength
               (p\<lparr>health := health p - damage2\<rparr>, g2, out2) = Some (Inr (won, p', g', out'))"
            and l2: "length out2 = length out + 2" by blast
          from less.hyps[OF lt this(1)] l2 lt show ?thesis by linarith
        qed
      qed
    qed
  qed
qed

text \<open>
  C7. For every random source and every player with strength at least 1 and health at
  least 1, \<open>Player.combat\<close> returns: the turn loop ends, with no exception. Each turn
  takes at least 1 from the monster's health, which is at most 50: the combat prints at
  most 102 lines, two for each of at most 50 turns, the opening line and one more.
\<close>

theorem combat_terminates:
  assumes "1 \<le> strength p" "1 \<le> health p"
  shows "\<exists>won p' g' out'. combat (p, g, out) = Some (Inr (won, p', g', out'))
           \<and> length out' \<le> length out + 102"
proof -
  obtain mh g1 where a: "random_randint 20 50 g = Inr (mh, g1)" by (simp add: random_randint_def)
  obtain ms g2 where b: "random_randint 5 15 g1 = Inr (ms, g2)" by (simp add: random_randint_def)
  from random_randint_range[OF a] have mh: "nat mh \<le> 50" by linarith
  from random_randint_range[OF b] have "1 \<le> ms" by simp
  let ?out = "out @ [''You enter combat! Monster has '' @ str_int mh
                         @ '' health and '' @ str_int ms @ '' strength.'']"
  from combat_loop_returns[OF assms(1) \<open>1 \<le> ms\<close>] obtain r where
    "combat_loop mh ms (p, g2, ?out) = Some (Inr r)"
    by blast
  then obtain won p' g' out' where
    r: "combat_loop mh ms (p, g2, ?out) = Some (Inr (won, p', g', out'))"
    by (cases r) auto
  from combat_loop_lines[OF r] mh have "length out' \<le> length out + 102" by simp
  moreover from r have "combat (p, g, out) = Some (Inr (won, p', g', out'))"
    by (simp add: combat_def rbind_def a b)
  ultimately show ?thesis by blast
qed

theorem combat_terminates_witness:
  "1 \<le> strength Player_init \<and> 1 \<le> health Player_init \<and>
   (\<exists>won p' g' out'. combat (Player_init, rng_const 7, []) = Some (Inr (won, p', g', out'))
      \<and> length out' \<le> length ([]::string list) + 102)"
proof -
  have s: "1 \<le> strength Player_init" and h: "1 \<le> health Player_init"
    by (simp_all add: Player_init_def)
  from combat_terminates[OF s h, of "rng_const 7" "[]"] s h show ?thesis by blast
qed

section \<open>The session: death by a negative outcome\<close>

lemma rbind_simps [simp]:
  "rbind (Inl e) f = Some (Inl e)"
  "rbind (Inr v) f = f v"
  by (simp_all add: rbind_def)

lemma pbind_simps [simp]:
  "pbind None f = None"
  "pbind (Some (Inl e)) f = Some (Inl e)"
  "pbind (Some (Inr v)) f = f v"
  by (simp_all add: pbind_def)

lemma game_loop_break:
  "is_alive (player gs) \<Longrightarrow> game_step m gs = Some (Inr (Break, gs')) \<Longrightarrow>
   game_loop m gs = Some (Inr gs')"
  by (subst game_loop.simps) simp

lemma finish_dead:
  "\<not> is_alive (player gs) \<Longrightarrow>
   finish gs = gs\<lparr>stdout := stdout gs @ [''Game over. You died.'', final_stats (player gs)]\<rparr>"
  by (simp add: finish_def say_def)

lemma float_order: "float_0_1 < float_0_75" "float_0_75 < float_0_95"
  by (simp_all add: float_0_1_def float_0_75_def float_0_95_def)

text \<open>
  C8. Take an iteration of the game loop that enters an unvisited room, reads a yes, passes
  the instant-death draw, and draws a negative outcome whose effect leaves the player at
  health exactly 0. Then \<open>is_alive\<close> is false for that player, the loop ends at this
  iteration without the escape message, and the closing lines are the death message and
  the final stats.
\<close>

theorem negative_outcome_to_zero_health_dies:
  assumes alive: "is_alive (player gs)"
    and pos: "position (player gs) = (y, x)"
    and notexit: "exit_room m \<noteq> Some (y, x)"
    and fresh: "(y, x) \<notin> visited_set gs"
    and desc: "py_get room_descriptions (y * width m + x) = Inr description"
    and ch: "py_get choices (y * width m + x) = Inr choice_text"
    and inp: "stdin gs = line # rest"
    and yes: "py_lower (py_strip line) \<in> set yes_options"
    and r: "random_randint 1 100 (rand gs) = Inr (r, g1)" "r \<noteq> 1"
    and v: "random_random g1 = (v, g2)" "float_0_75 \<le> v" "v < float_0_95"
    and neg: "random_choice negative_outcomes g2 = Inr (outcome, g3)"
    and eff: "apply_negative outcome (player gs) = Inr p'" "health p' = 0"
  shows "\<not> is_alive p' \<and>
         (\<exists>gs'. game_loop m gs = Some (Inr gs') \<and> player gs' = p' \<and>
            escape_message \<notin> set (drop (length (stdout gs)) (stdout gs')) \<and>
            stdout (finish gs') = stdout gs' @ [''Game over. You died.'', final_stats p'])"
proof -
  have dead: "\<not> is_alive p'" using eff(2) by (simp add: is_alive_def)
  let ?gs4 = "gs\<lparr>visited_set := insert (y, x) (visited_set gs),
                 stdout := stdout gs @ [CHR 0x0A # description,
                    ''Do you want to '' @ choice_text @ '' (yes/no)?''],
                 stdin := rest\<rparr>"
  let ?gs' = "?gs4\<lparr>rand := g3, stdout := stdout ?gs4 @ [outcome], player := p'\<rparr>"
  have nv: "\<not> v < float_0_1" "\<not> v < float_0_75"
    using v(2) float_order by auto
  have nb: "negative_branch (?gs4\<lparr>rand := g2\<rparr>) = Inr (Next, ?gs')"
    using neg eff(1) by (simp add: negative_branch_def say_def)
  have ey: "event_yes ?gs4 = Some (Inr (Break, ?gs'))"
    using r v(1,3) nv nb dead by (simp add: event_yes_def Let_def)
  have yn: "py_lower (py_strip line) \<in> set (yes_options @ no_options)"
    using yes by simp
  have re: "room_event gs y x (y * width m + x) = Some (Inr (Break, ?gs'))"
    using desc ch inp yes yn ey
    by (simp add: room_event_def Let_def say_def read_input_def del: set_append)
  have gs: "game_step m gs = Some (Inr (Break, ?gs'))"
    using pos notexit fresh re by (auto simp: game_step_def Let_def)
  have gl: "game_loop m gs = Some (Inr ?gs')"
    by (rule game_loop_break[OF alive gs])
  have esc: "escape_message \<noteq> CHR 0x0A # description"
    by (simp add: escape_message_def)
  have esc2: "escape_message \<noteq> ''Do you want to '' @ choice_text @ '' (yes/no)?''"
    by (simp add: escape_message_def)
  have "outcome \<in> set negative_outcomes"
    using neg by (auto simp: random_choice_def split: if_splits)
  then have esc3: "escape_message \<noteq> outcome"
    by (auto simp: negative_outcomes_def escape_message_def)
  show ?thesis
    using dead gl esc esc2 esc3 by (simp add: finish_dead)
qed


text \<open>
  A two by two maze as \<open>Maze(2, 2)\<close> builds it when every draw is 1, and a player
  left with 15 health in its first room.
\<close>

definition example_maze :: maze where
  "example_maze = \<lparr>width = 2, height = 2, cells = [[[2, 1], [3, 1]], [[2, 0], [0, 3]]],
                    visited = [[True, True], [True, True]], exit_room = Some (1, 1)\<rparr>"

definition weak_game :: game where
  "weak_game = \<lparr>player = Player_init\<lparr>health := 15\<rparr>, visited_set = {},
                 rand = rng_of_list [1, 7881299347898368, 0], stdin = [''yes''], stdout = []\<rparr>"

lemma rng_of_list_simps:
  "rng_of_list ds 0 = (if ds = [] then 0 else hd ds)"
  "rng_tail (rng_of_list ds) = rng_of_list (tl ds)"
  by (cases ds; auto simp: rng_of_list_def rng_tail_def fun_eq_iff nth_tl hd_conv_nth)+

theorem negative_outcome_to_zero_health_dies_witness:
  "is_alive (player weak_game) \<and>
   apply_negative (negative_outcomes ! 0) (player weak_game) = Inr ((player weak_game)\<lparr>health := 0\<rparr>) \<and>
   \<not> is_alive ((player weak_game)\<lparr>health := 0\<rparr>) \<and>
   (\<exists>gs'. game_loop example_maze weak_game = Some (Inr gs') \<and>
      player gs' = (player weak_game)\<lparr>health := 0\<rparr> \<and>
      escape_message \<notin> set (drop (length (stdout weak_game)) (stdout gs')) \<and>
      stdout (finish gs') = stdout gs' @ [''Game over. You died.'',
                                           final_stats ((player weak_game)\<lparr>health := 0\<rparr>)])"
proof -
  let ?p' = "(player weak_game)\<lparr>health := 0\<rparr>"
  have alive: "is_alive (player weak_game)"
    by (simp add: weak_game_def Player_init_def is_alive_def)
  have pos: "position (player weak_game) = (0, 0)"
    by (simp add: weak_game_def Player_init_def)
  have notexit: "exit_room example_maze \<noteq> Some (0, 0)"
    by (simp add: example_maze_def)
  have fresh: "(0, 0) \<notin> visited_set weak_game"
    by (simp add: weak_game_def)
  have desc: "py_get room_descriptions (0 * width example_maze + 0) = Inr (room_descriptions ! 0)"
    by (simp add: py_get_def py_index_def room_descriptions_def)
  have ch: "py_get choices (0 * width example_maze + 0) = Inr (choices ! 0)"
    by (simp add: py_get_def py_index_def choices_def)
  have inp: "stdin weak_game = ''yes'' # []"
    by (simp add: weak_game_def)
  have yes: "py_lower (py_strip ''yes'') \<in> set yes_options"
    by (simp add: py_lower_def py_strip_def is_space_def lower_char_def yes_options_def)
  have r: "random_randint 1 100 (rand weak_game) = Inr (2, rng_of_list [7881299347898368, 0])"
    by (simp add: weak_game_def random_randint_def rng_of_list_simps)
  have r1: "(2::int) \<noteq> 1" by simp
  have v: "random_random (rng_of_list [7881299347898368, 0]) = (7 / 8, rng_of_list [0])"
    by (simp add: random_random_def rng_of_list_simps)
  have v1: "float_0_75 \<le> 7 / 8" and v2: "(7 / 8 :: rat) < float_0_95"
    by (simp_all add: float_0_75_def float_0_95_def)
  have neg: "random_choice negative_outcomes (rng_of_list [0]) = Inr (negative_outcomes ! 0, rng_of_list [])"
    by (simp add: random_choice_def rng_of_list_simps negative_outcomes_def)
  have eff: "apply_negative (negative_outcomes ! 0) (player weak_game) = Inr ?p'"
    by (simp add: apply_negative_table negative_penalty_def weak_game_def Player_init_def)
  have z: "health ?p' = 0" by simp
  from negative_outcome_to_zero_health_dies[OF alive pos notexit fresh desc ch inp yes r r1 v v1 v2 neg eff z]
  show ?thesis using alive eff by blast
qed

section \<open>The session: end of input\<close>

lemma finish_player [simp]: "player (finish gs) = player gs"
  by (simp add: finish_def say_def)

lemma room_prompt_eof:
  assumes "stdin gs = []"
    and "py_get room_descriptions rid = Inr d" "py_get choices rid = Inr c"
  shows "room_event gs y x rid =
           Some (Inr (Break, gs\<lparr>visited_set := insert (y, x) (visited_set gs),
                                 stdout := stdout gs @ [CHR 0x0A # d,
                                   ''Do you want to '' @ c @ '' (yes/no)?'', eof_message]\<rparr>))"
  using assms by (simp add: room_event_def Let_def say_def read_input_def)

lemma fight_prompt_eof:
  assumes "stdin gs = []"
  shows "\<exists>gs'. combat_branch gs = Some (Inr (Break, gs')) \<and> player gs' = player gs
           \<and> last (stdout gs') = eof_message"
proof -
  have "combat_outcomes \<noteq> []" by (simp add: combat_outcomes_def)
  then show ?thesis
    using assms by (simp add: combat_branch_def random_choice_def Let_def say_def read_input_def)
qed

lemma foldl_door_body_game:
  "foldl door_body (opts, gs) es = (opts', gs') \<Longrightarrow>
   player gs' = player gs \<and> stdin gs' = stdin gs \<and> rand gs' = rand gs
   \<and> visited_set gs' = visited_set gs"
proof (induction es arbitrary: opts gs)
  case Nil then show ?case by simp
next
  case (Cons e es)
  obtain i dn ny nx where e: "e = (i, dn, ny, nx)" by (cases e) auto
  from Cons.prems Cons.IH[of "AList.update (str_int (int i)) (dn, ny, nx) opts"
      "say (str_int (int i) @ ''. '' @ dn) gs"]
  show ?case by (simp add: door_body_def e say_def)
qed

lemma door_prompt_eof:
  assumes "stdin gs = []" and "get_neighbors m y x = Inr ns" and "ns \<noteq> []"
  shows "\<exists>gs'. door_phase m y x gs = Inr (Break, gs') \<and> player gs' = player gs
           \<and> last (stdout gs') = eof_message"
proof -
  obtain opts gs2 where f: "foldl door_body ([], say ''Available doors:'' gs) (enumerate 1 ns) = (opts, gs2)"
    by (cases "foldl door_body ([], say ''Available doors:'' gs) (enumerate 1 ns)") auto
  from foldl_door_body_game[OF f] have "player gs2 = player gs" "stdin gs2 = []"
    using assms(1) by (simp_all add: say_def)
  then show ?thesis
    using assms(2,3) f by (simp add: door_phase_def Let_def say_def read_input_def)
qed

text \<open>
  C9. In an iteration of the game loop at a room that is not the exit, an end of the input
  stream at any of the three prompts ends the session without an exception: the loop
  returns, the last line printed is the end-of-input message, and the player is the one
  of the moment of the failed read, also after the closing lines. The three parts are
  the room prompt (first read of the iteration), the fight prompt (after a yes and a
  combat draw), and the door prompt (the part of the iteration before the doors fell
  through in state \<open>gs1\<close> with nothing left to read).
\<close>

theorem end_of_input_is_graceful:
  assumes alive: "is_alive (player gs)"
    and pos: "position (player gs) = (y, x)"
    and notexit: "exit_room m \<noteq> Some (y, x)"
    and desc: "py_get room_descriptions (y * width m + x) = Inr description"
    and ch: "py_get choices (y * width m + x) = Inr choice_text"
  shows
    "((y, x) \<notin> visited_set gs \<and> stdin gs = [] \<longrightarrow>
        (\<exists>gs'. game_loop m gs = Some (Inr gs') \<and> last (stdout gs') = eof_message
           \<and> player gs' = player gs \<and> player (finish gs') = player gs))
     \<and> (\<forall>line r g1 v g2.
          (y, x) \<notin> visited_set gs \<and> stdin gs = [line]
          \<and> py_lower (py_strip line) \<in> set yes_options
          \<and> random_randint 1 100 (rand gs) = Inr (r, g1) \<and> r \<noteq> 1
          \<and> random_random g1 = (v, g2) \<and> v < float_0_1 \<longrightarrow>
        (\<exists>gs'. game_loop m gs = Some (Inr gs') \<and> last (stdout gs') = eof_message
           \<and> player gs' = player gs \<and> player (finish gs') = player gs))
     \<and> (\<forall>gs1 ns.
          (if (y, x) \<notin> visited_set gs then room_event gs y x (y * width m + x)
           else Some (Inr (Next, gs))) = Some (Inr (Next, gs1))
          \<and> stdin gs1 = [] \<and> get_neighbors m y x = Inr ns \<and> ns \<noteq> [] \<longrightarrow>
        (\<exists>gs'. game_loop m gs = Some (Inr gs') \<and> last (stdout gs') = eof_message
           \<and> player gs' = player gs1 \<and> player (finish gs') = player gs1))"
proof (intro conjI allI impI)
  assume a: "(y, x) \<notin> visited_set gs \<and> stdin gs = []"
  from a room_prompt_eof[OF _ desc ch, of gs y x]
  have "game_step m gs = Some (Inr (Break, gs\<lparr>visited_set := insert (y, x) (visited_set gs),
                                 stdout := stdout gs @ [CHR 0x0A # description,
                                   ''Do you want to '' @ choice_text @ '' (yes/no)?'', eof_message]\<rparr>))"
    using pos notexit by (auto simp: game_step_def Let_def)
  from game_loop_break[OF alive this]
  show "\<exists>gs'. game_loop m gs = Some (Inr gs') \<and> last (stdout gs') = eof_message
           \<and> player gs' = player gs \<and> player (finish gs') = player gs"
    by simp
next
  fix line r g1 v g2
  assume a: "(y, x) \<notin> visited_set gs \<and> stdin gs = [line]
          \<and> py_lower (py_strip line) \<in> set yes_options
          \<and> random_randint 1 100 (rand gs) = Inr (r, g1) \<and> r \<noteq> 1
          \<and> random_random g1 = (v, g2) \<and> v < float_0_1"
  let ?gs4 = "gs\<lparr>visited_set := insert (y, x) (visited_set gs),
                 stdout := stdout gs @ [CHR 0x0A # description,
                    ''Do you want to '' @ choice_text @ '' (yes/no)?''],
                 stdin := []\<rparr>"
  have "stdin (?gs4\<lparr>rand := g2\<rparr>) = []" by simp
  from fight_prompt_eof[OF this] obtain gs' where
    cb: "combat_branch (?gs4\<lparr>rand := g2\<rparr>) = Some (Inr (Break, gs'))"
    and p: "player gs' = player gs" and l: "last (stdout gs') = eof_message"
    by auto
  have ey: "event_yes ?gs4 = Some (Inr (Break, gs'))"
    using a cb by (simp add: event_yes_def Let_def)
  have yn: "py_lower (py_strip line) \<in> set (yes_options @ no_options)"
    using a by simp
  have re: "room_event gs y x (y * width m + x) = Some (Inr (Break, gs'))"
    using desc ch a yn ey
    by (simp add: room_event_def Let_def say_def read_input_def del: set_append)
  have "game_step m gs = Some (Inr (Break, gs'))"
    using pos notexit a re by (auto simp: game_step_def Let_def)
  from game_loop_break[OF alive this] p l
  show "\<exists>gs'. game_loop m gs = Some (Inr gs') \<and> last (stdout gs') = eof_message
           \<and> player gs' = player gs \<and> player (finish gs') = player gs"
    by simp
next
  fix gs1 ns
  assume a: "(if (y, x) \<notin> visited_set gs then room_event gs y x (y * width m + x)
           else Some (Inr (Next, gs))) = Some (Inr (Next, gs1))
          \<and> stdin gs1 = [] \<and> get_neighbors m y x = Inr ns \<and> ns \<noteq> []"
  then have "stdin gs1 = []" "get_neighbors m y x = Inr ns" "ns \<noteq> []" by simp_all
  from door_prompt_eof[OF this] obtain gs' where
    d: "door_phase m y x gs1 = Inr (Break, gs')"
    and p: "player gs' = player gs1" and l: "last (stdout gs') = eof_message"
    by auto
  have "game_step m gs = Some (Inr (Break, gs'))"
    using pos notexit a d by (simp add: game_step_def Let_def)
  from game_loop_break[OF alive this] p l
  show "\<exists>gs'. game_loop m gs = Some (Inr gs') \<and> last (stdout gs') = eof_message
           \<and> player gs' = player gs1 \<and> player (finish gs') = player gs1"
    by simp
qed


lemma new_game_simps [simp]:
  "player (new_game g inputs) = Player_init"
  "visited_set (new_game g inputs) = {}"
  "rand (new_game g inputs) = g"
  "stdin (new_game g inputs) = inputs"
  by (simp_all add: new_game_def)

lemma Player_init_alive: "is_alive Player_init"
  by (simp add: Player_init_def is_alive_def)

lemma Player_init_position: "position Player_init = (0, 0)"
  by (simp add: Player_init_def)

lemma first_room_texts:
  "py_get room_descriptions (0 * w + 0) = Inr (room_descriptions ! 0)"
  "py_get choices (0 * w + 0) = Inr (choices ! 0)"
  by (simp_all add: py_get_def py_index_def room_descriptions_def choices_def)

lemma example_maze_neighbors:
  "get_neighbors example_maze 0 0 = Inr [(''East'', 0, 1), (''South'', 1, 0)]"
  by (simp add: get_neighbors_def example_maze_def py_get2_def py_get_def py_index_def
        neighbors_body_def)

theorem end_of_input_is_graceful_witness:
  "is_alive (player (new_game (rng_const 0) [])) \<and>
   (\<exists>gs'. game_loop example_maze (new_game (rng_const 0) []) = Some (Inr gs')
      \<and> last (stdout gs') = eof_message \<and> player gs' = Player_init
      \<and> player (finish gs') = Player_init) \<and>
   (\<exists>gs'. game_loop example_maze (new_game (rng_of_list [1, 0]) [''y'']) = Some (Inr gs')
      \<and> last (stdout gs') = eof_message \<and> player gs' = Player_init
      \<and> player (finish gs') = Player_init) \<and>
   (\<exists>gs'. game_loop example_maze ((new_game (rng_const 0) [])\<lparr>visited_set := {(0, 0)}\<rparr>) = Some (Inr gs')
      \<and> last (stdout gs') = eof_message \<and> player gs' = Player_init
      \<and> player (finish gs') = Player_init)"
proof -
  have notexit: "exit_room example_maze \<noteq> Some (0, 0)"
    by (simp add: example_maze_def)
  let ?a = "new_game (rng_const 0) []"
  let ?b = "new_game (rng_of_list [1, 0]) [''y'']"
  let ?c = "(new_game (rng_const 0) [])\<lparr>visited_set := {(0, 0)}\<rparr>"
  have A: "\<exists>gs'. game_loop example_maze ?a = Some (Inr gs')
      \<and> last (stdout gs') = eof_message \<and> player gs' = Player_init
      \<and> player (finish gs') = Player_init"
    using end_of_input_is_graceful[of ?a 0 0 example_maze, OF _ _ notexit first_room_texts]
    by (simp add: Player_init_alive Player_init_position)
  have yes: "py_lower (py_strip ''y'') \<in> set yes_options"
    by (simp add: py_lower_def py_strip_def is_space_def lower_char_def yes_options_def)
  have r: "random_randint 1 100 (rng_of_list [1, 0]) = Inr (2, rng_of_list [0])"
    by (simp add: random_randint_def rng_of_list_simps)
  have v: "random_random (rng_of_list [0]) = (0, rng_of_list [])"
    by (simp add: random_random_def rng_of_list_simps)
  have v1: "(0::rat) < float_0_1" by (simp add: float_0_1_def)
  have B: "\<exists>gs'. game_loop example_maze ?b = Some (Inr gs')
      \<and> last (stdout gs') = eof_message \<and> player gs' = Player_init
      \<and> player (finish gs') = Player_init"
    using end_of_input_is_graceful[of ?b 0 0 example_maze, OF _ _ notexit first_room_texts]
      yes r v v1
    by (simp add: Player_init_alive Player_init_position)
  have C: "\<exists>gs'. game_loop example_maze ?c = Some (Inr gs')
      \<and> last (stdout gs') = eof_message \<and> player gs' = Player_init
      \<and> player (finish gs') = Player_init"
    using end_of_input_is_graceful[of ?c 0 0 example_maze, OF _ _ notexit first_room_texts]
      example_maze_neighbors
    by (simp add: Player_init_alive Player_init_position)
  from A B C show ?thesis by (simp add: Player_init_alive)
qed

section \<open>The session: an answer that is neither yes nor no\<close>

text \<open>
  C5. The claim is that such an answer changes no state and that the room is offered
  again. The code marks the room visited before it reads the answer, so it does
  otherwise: after the answer the iteration ends by \<open>continue\<close> with the room added to
  the visited set and the request to enter yes or no printed, and the next iteration
  skips the room event and is exactly the door phase.
\<close>

theorem invalid_answer_is_not_asked_again:
  assumes alive: "is_alive (player gs)"
    and pos: "position (player gs) = (y, x)"
    and notexit: "exit_room m \<noteq> Some (y, x)"
    and fresh: "(y, x) \<notin> visited_set gs"
    and desc: "py_get room_descriptions (y * width m + x) = Inr description"
    and ch: "py_get choices (y * width m + x) = Inr choice_text"
    and inp: "stdin gs = line # rest"
    and bad: "py_lower (py_strip line) \<notin> set (yes_options @ no_options)"
  shows "\<exists>gs1. game_step m gs = Some (Inr (Continue, gs1))
           \<and> player gs1 = player gs
           \<and> last (stdout gs1) = please_message
           \<and> visited_set gs1 = insert (y, x) (visited_set gs)
           \<and> visited_set gs1 \<noteq> visited_set gs
           \<and> game_step m gs1 = Some (door_phase m y x gs1)"
proof -
  let ?gs1 = "gs\<lparr>visited_set := insert (y, x) (visited_set gs),
                 stdout := stdout gs @ [CHR 0x0A # description,
                    ''Do you want to '' @ choice_text @ '' (yes/no)?'', please_message],
                 stdin := rest\<rparr>"
  have re: "room_event gs y x (y * width m + x) = Some (Inr (Continue, ?gs1))"
    using desc ch inp bad
    by (simp add: room_event_def Let_def say_def read_input_def del: set_append)
  have s1: "game_step m gs = Some (Inr (Continue, ?gs1))"
    using pos notexit fresh re by (auto simp: game_step_def Let_def)
  have s2: "game_step m ?gs1 = Some (door_phase m y x ?gs1)"
    using pos notexit by (auto simp: game_step_def Let_def)
  have "visited_set ?gs1 \<noteq> visited_set gs" using fresh by auto
  with s1 s2 show ?thesis by (intro exI[of _ ?gs1]) simp
qed

theorem invalid_answer_is_not_asked_again_witness:
  "py_lower (py_strip ''maybe'') \<notin> set (yes_options @ no_options) \<and>
   (\<exists>gs1. game_step example_maze (new_game (rng_const 0) [''maybe'', ''yes'']) = Some (Inr (Continue, gs1))
      \<and> player gs1 = Player_init
      \<and> last (stdout gs1) = please_message
      \<and> visited_set gs1 = {(0, 0)}
      \<and> visited_set gs1 \<noteq> {}
      \<and> game_step example_maze gs1 = Some (door_phase example_maze 0 0 gs1))"
proof -
  have notexit: "exit_room example_maze \<noteq> Some (0, 0)"
    by (simp add: example_maze_def)
  have bad: "py_lower (py_strip ''maybe'') \<notin> set (yes_options @ no_options)"
    by (simp add: py_lower_def py_strip_def is_space_def lower_char_def yes_options_def no_options_def)
  from invalid_answer_is_not_asked_again[of "new_game (rng_const 0) [''maybe'', ''yes'']" 0 0
      example_maze _ _ "''maybe''" "[''yes'']", OF _ _ notexit _ first_room_texts _ bad]
  show ?thesis using bad
    by (simp add: Player_init_alive Player_init_position del: set_append)
qed

section \<open>Generated mazes\<close>

subsection \<open>Grids\<close>

text \<open>
  A grid of \<open>h\<close> rows of \<open>w\<close> entries each, positions inside it, and reading and
  writing at a position. On such a grid the subscriptions of the model cannot raise.
\<close>

definition grid_shape :: "int \<Rightarrow> int \<Rightarrow> 'a list list \<Rightarrow> bool" where
  "grid_shape w h xs = (length xs = nat h \<and> (\<forall>row \<in> set xs. length row = nat w))"

definition inb :: "int \<Rightarrow> int \<Rightarrow> int \<times> int \<Rightarrow> bool" where
  "inb w h c = (0 \<le> fst c \<and> fst c < h \<and> 0 \<le> snd c \<and> snd c < w)"

definition grid_at :: "'a list list \<Rightarrow> int \<times> int \<Rightarrow> 'a" where
  "grid_at xs c = xs ! nat (fst c) ! nat (snd c)"

definition grid_upd :: "'a list list \<Rightarrow> int \<times> int \<Rightarrow> 'a \<Rightarrow> 'a list list" where
  "grid_upd xs c v = xs[nat (fst c) := (xs ! nat (fst c))[nat (snd c) := v]]"

lemma grid_shape_row:
  "grid_shape w h xs \<Longrightarrow> inb w h c \<Longrightarrow>
   nat (fst c) < length xs \<and> nat (snd c) < length (xs ! nat (fst c))"
  by (auto simp: grid_shape_def inb_def)

lemma grid_shape_upd:
  assumes "grid_shape w h xs"
  shows "grid_shape w h (grid_upd xs c v)"
proof (cases "nat (fst c) < length xs")
  case True
  then have "xs ! nat (fst c) \<in> set xs" by simp
  with assms have l: "length ((xs ! nat (fst c))[nat (snd c) := v]) = nat w"
    by (simp add: grid_shape_def)
  have "set (xs[nat (fst c) := (xs ! nat (fst c))[nat (snd c) := v]])
          \<subseteq> insert ((xs ! nat (fst c))[nat (snd c) := v]) (set xs)"
    by (rule set_update_subset_insert)
  with assms l show ?thesis
    unfolding grid_shape_def grid_upd_def by auto
next
  case False
  then have "xs[nat (fst c) := (xs ! nat (fst c))[nat (snd c) := v]] = xs"
    by (simp add: list_update_beyond)
  then show ?thesis using assms by (simp add: grid_upd_def)
qed

lemma grid_at_upd:
  assumes "grid_shape w h xs" "inb w h c" "inb w h c'"
  shows "grid_at (grid_upd xs c v) c' = (if c' = c then v else grid_at xs c')"
proof -
  from grid_shape_row[OF assms(1,2)] grid_shape_row[OF assms(1,3)]
  have r: "nat (fst c) < length xs" "nat (snd c) < length (xs ! nat (fst c))"
    "nat (fst c') < length xs" "nat (snd c') < length (xs ! nat (fst c'))" by auto
  have eq: "c' = c \<longleftrightarrow> nat (fst c') = nat (fst c) \<and> nat (snd c') = nat (snd c)"
    using assms(2,3) by (auto simp: inb_def prod_eq_iff)
  show ?thesis
    using r unfolding grid_at_def grid_upd_def eq
    by (auto simp: nth_list_update)
qed

lemma py_get2_grid:
  "grid_shape w h xs \<Longrightarrow> inb w h (y, x) \<Longrightarrow> py_get2 xs y x = Inr (grid_at xs (y, x))"
  using grid_shape_row[of w h xs "(y, x)"]
  by (simp add: py_get2_inrange grid_at_def inb_def)

lemma py_set2_grid:
  "grid_shape w h xs \<Longrightarrow> inb w h (y, x) \<Longrightarrow> py_set2 xs y x v = Inr (grid_upd xs (y, x) v)"
  using grid_shape_row[of w h xs "(y, x)"]
  by (simp add: py_set2_inrange grid_upd_def inb_def)

lemma py_append2_grid:
  "grid_shape w h xs \<Longrightarrow> inb w h (y, x) \<Longrightarrow>
   py_append2 xs y x v = Inr (grid_upd xs (y, x) (grid_at xs (y, x) @ [v]))"
  by (simp add: py_append2_def py_get2_grid py_set2_grid)

lemma grid_shape_replicate: "grid_shape w h (replicate (nat h) (replicate (nat w) v))"
  by (simp add: grid_shape_def)

lemma grid_at_replicate: "inb w h c \<Longrightarrow> grid_at (replicate (nat h) (replicate (nat w) v)) c = v"
  by (auto simp: grid_at_def inb_def)

subsection \<open>Directions\<close>

text \<open>
  The table \<open>directions\<close> read as functions: where a door of direction \<open>d\<close> leads,
  and the direction of the door back.
\<close>

definition door_target :: "int \<times> int \<Rightarrow> int \<Rightarrow> int \<times> int" where
  "door_target c d =
     (if d = 0 then (fst c - 1, snd c)
      else if d = 1 then (fst c + 1, snd c)
      else if d = 2 then (fst c, snd c + 1)
      else (fst c, snd c - 1))"

definition opposite :: "int \<Rightarrow> int" where
  "opposite d = (if d = 0 then 1 else if d = 1 then 0 else if d = 2 then 3 else 2)"

definition is_dir :: "int \<Rightarrow> bool" where
  "is_dir d = (d = 0 \<or> d = 1 \<or> d = 2 \<or> d = 3)"

lemma directions_mem:
  "(dy, dx, d, opp) \<in> set directions \<longleftrightarrow>
   is_dir d \<and> opp = opposite d \<and> (y + dy, x + dx) = door_target (y, x) d"
  by (auto simp: directions_def is_dir_def opposite_def door_target_def)

lemma dir_tgt_directions:
  "a \<in> set directions \<Longrightarrow>
   dir_tgt y x a = (fst (door_target (y, x) (fst (snd (snd a)))), snd (door_target (y, x) (fst (snd (snd a)))),
                    fst (snd (snd a)), opposite (fst (snd (snd a))))
   \<and> is_dir (fst (snd (snd a)))"
  by (auto simp: directions_def dir_tgt_def is_dir_def opposite_def door_target_def)

lemma opposite_opposite: "is_dir d \<Longrightarrow> opposite (opposite d) = d"
  by (auto simp: is_dir_def opposite_def)

lemma is_dir_opposite: "is_dir d \<Longrightarrow> is_dir (opposite d)"
  by (auto simp: is_dir_def opposite_def)

lemma door_target_back: "is_dir d \<Longrightarrow> door_target (door_target c d) (opposite d) = c"
  by (auto simp: is_dir_def opposite_def door_target_def)

lemma door_target_neq: "door_target c d \<noteq> c"
  by (auto simp: door_target_def prod_eq_iff)

lemma door_target_inj: "is_dir d \<Longrightarrow> is_dir d' \<Longrightarrow> door_target c d = door_target c d' \<Longrightarrow> d = d'"
  by (auto simp: is_dir_def door_target_def prod_eq_iff)

subsection \<open>Carving a pair of doors\<close>

definition carved :: "int list list list \<Rightarrow> int \<times> int \<Rightarrow> int \<Rightarrow> int list list list" where
  "carved cs c d =
     grid_upd (grid_upd cs c (grid_at cs c @ [d])) (door_target c d)
       (grid_at cs (door_target c d) @ [opposite d])"

lemma carve_grid:
  assumes "grid_shape w h cs" "inb w h (y, x)" "inb w h (door_target (y, x) d)"
  shows "carve cs y x (fst (door_target (y, x) d), snd (door_target (y, x) d), d, opposite d)
         = Inr (carved cs (y, x) d)"
proof -
  let ?t = "door_target (y, x) d"
  have t: "inb w h (fst ?t, snd ?t)" using assms(3) by simp
  have s1: "grid_shape w h (grid_upd cs (y, x) (grid_at cs (y, x) @ [d]))"
    by (rule grid_shape_upd[OF assms(1)])
  have a: "grid_at (grid_upd cs (y, x) (grid_at cs (y, x) @ [d])) ?t = grid_at cs ?t"
    using grid_at_upd[OF assms(1,2,3)] door_target_neq[of "(y, x)" d] by simp
  show ?thesis
    unfolding carve_def carved_def
    using py_append2_grid[OF assms(1,2)] py_append2_grid[OF s1 t] a by simp
qed

lemma grid_shape_carved: "grid_shape w h cs \<Longrightarrow> grid_shape w h (carved cs c d)"
  unfolding carved_def by (intro grid_shape_upd)

lemma grid_at_carved:
  assumes "grid_shape w h cs" "inb w h c" "inb w h (door_target c d)" "inb w h c'"
  shows "grid_at (carved cs c d) c' =
           (if c' = c then grid_at cs c @ [d]
            else if c' = door_target c d then grid_at cs c' @ [opposite d]
            else grid_at cs c')"
proof -
  have s1: "grid_shape w h (grid_upd cs c (grid_at cs c @ [d]))"
    by (rule grid_shape_upd[OF assms(1)])
  show ?thesis
    unfolding carved_def
    using grid_at_upd[OF s1 assms(3,4)] grid_at_upd[OF assms(1,2,4)]
      grid_at_upd[OF assms(1,2,3)] door_target_neq[of c d]
    by auto
qed

text \<open>
  The doors of a grid are well formed: in every room the door list has no repetition and
  every door is one of the four directions, leads to a room of the grid and has its
  counterpart in that room.
\<close>

definition doors_ok :: "int \<Rightarrow> int \<Rightarrow> int list list list \<Rightarrow> bool" where
  "doors_ok w h cs =
     (\<forall>c. inb w h c \<longrightarrow>
        distinct (grid_at cs c) \<and>
        (\<forall>d \<in> set (grid_at cs c).
           is_dir d \<and> inb w h (door_target c d) \<and> opposite d \<in> set (grid_at cs (door_target c d))))"

lemma doors_okD:
  "doors_ok w h cs \<Longrightarrow> inb w h c \<Longrightarrow> d \<in> set (grid_at cs c) \<Longrightarrow>
   is_dir d \<and> inb w h (door_target c d) \<and> opposite d \<in> set (grid_at cs (door_target c d))"
  unfolding doors_ok_def by blast

lemma doors_ok_distinct: "doors_ok w h cs \<Longrightarrow> inb w h c \<Longrightarrow> distinct (grid_at cs c)"
  unfolding doors_ok_def by blast

lemma carved_doors_ok:
  assumes sh: "grid_shape w h cs" and ok: "doors_ok w h cs"
    and c: "inb w h c" and d: "is_dir d" and t: "inb w h (door_target c d)"
    and new: "d \<notin> set (grid_at cs c)"
  shows "doors_ok w h (carved cs c d)"
proof -
  let ?t = "door_target c d"
  note at = grid_at_carved[OF sh c t]
  have newt: "opposite d \<notin> set (grid_at cs ?t)"
  proof
    assume "opposite d \<in> set (grid_at cs ?t)"
    from doors_okD[OF ok t this] have "opposite (opposite d) \<in> set (grid_at cs (door_target ?t (opposite d)))"
      by simp
    with new show False by (simp add: opposite_opposite[OF d] door_target_back[OF d])
  qed
  show ?thesis
    unfolding doors_ok_def
  proof (intro allI impI conjI ballI)
    fix c' assume c': "inb w h c'"
    show "distinct (grid_at (carved cs c d) c')"
      using at[OF c'] doors_ok_distinct[OF ok c'] new newt by auto
  next
    fix c' e assume c': "inb w h c'" and e: "e \<in> set (grid_at (carved cs c d) c')"
    have cases: "(e \<in> set (grid_at cs c')) \<or> (c' = c \<and> e = d) \<or> (c' = ?t \<and> e = opposite d)"
      using e at[OF c'] by (auto split: if_splits)
    then show "is_dir e"
      using doors_okD[OF ok c'] d is_dir_opposite[OF d] by auto
    from cases show "inb w h (door_target c' e)"
      using doors_okD[OF ok c'] t c by (auto simp: door_target_back[OF d])
    from cases show "opposite e \<in> set (grid_at (carved cs c d) (door_target c' e))"
    proof (elim disjE conjE)
      assume old: "e \<in> set (grid_at cs c')"
      from doors_okD[OF ok c' old] have i: "inb w h (door_target c' e)"
        and o: "opposite e \<in> set (grid_at cs (door_target c' e))" by auto
      show ?thesis using at[OF i] o by auto
    next
      assume "c' = c" "e = d"
      then show ?thesis using at[OF t] door_target_neq[of c d] by auto
    next
      assume "c' = ?t" "e = opposite d"
      then show ?thesis using at[OF c] by (simp add: door_target_back[OF d] opposite_opposite[OF d])
    qed
  qed
qed

subsection \<open>The search phase\<close>

text \<open>Rooms joined to the start room by a path of doors.\<close>

inductive door_path :: "int \<Rightarrow> int \<Rightarrow> int list list list \<Rightarrow> int \<times> int \<Rightarrow> bool"
  for w h cs where
  start: "door_path w h cs (0, 0)"
| door: "door_path w h cs c \<Longrightarrow> inb w h c \<Longrightarrow> d \<in> set (grid_at cs c) \<Longrightarrow>
         door_path w h cs (door_target c d)"

lemma door_path_mono:
  assumes "door_path w h cs c"
    and "\<And>c. inb w h c \<Longrightarrow> set (grid_at cs c) \<subseteq> set (grid_at cs' c)"
  shows "door_path w h cs' c"
  using assms(1)
proof induction
  case start
  show ?case by (rule door_path.start)
next
  case (door c d)
  with assms(2)[of c] show ?case by (auto intro: door_path.door)
qed

lemma directions_exist:
  "is_dir d \<Longrightarrow> \<exists>dy dx. (dy, dx, d, opposite d) \<in> set directions
                         \<and> (y + dy, x + dx) = door_target (y, x) d"
  by (auto simp: directions_def is_dir_def opposite_def door_target_def)

lemma un_sel_grid:
  assumes "grid_shape (width m) (height m) (visited m)"
  shows "un_sel m y x (dy, dx, d, opp) \<longleftrightarrow>
         inb (width m) (height m) (y + dy, x + dx) \<and> \<not> grid_at (visited m) (y + dy, x + dx)"
proof (cases "inb (width m) (height m) (y + dy, x + dx)")
  case True
  from py_get2_grid[OF assms True] True show ?thesis
    by (auto simp: un_sel_def inb_def)
next
  case False
  then show ?thesis by (auto simp: un_sel_def inb_def)
qed

lemma unvisited_body_grid:
  assumes "grid_shape (width m) (height m) (visited m)"
  shows "unvisited_body m y x a acc = Inr (acc @ map (dir_tgt y x) (filter (un_sel m y x) [a]))"
proof -
  obtain dy dx d opp where a: "a = (dy, dx, d, opp)" by (cases a) auto
  show ?thesis
  proof (cases "inb (width m) (height m) (y + dy, x + dx)")
    case True
    from py_get2_grid[OF assms True] True show ?thesis
      by (simp add: a un_sel_grid[OF assms] unvisited_body_def inb_def dir_tgt_def Let_def)
  next
    case False
    then show ?thesis
      by (auto simp: a un_sel_grid[OF assms] unvisited_body_def inb_def dir_tgt_def Let_def)
  qed
qed

lemma unvisited_loop_grid:
  assumes "grid_shape (width m) (height m) (visited m)"
  shows "for_loop ds (unvisited_body m y x) acc
         = Inr (acc @ map (dir_tgt y x) (filter (un_sel m y x) ds))"
proof (induction ds arbitrary: acc)
  case Nil show ?case by simp
next
  case (Cons a ds)
  have "for_loop (a # ds) (unvisited_body m y x) acc
          = for_loop ds (unvisited_body m y x) (acc @ map (dir_tgt y x) (filter (un_sel m y x) [a]))"
    using unvisited_body_grid[OF assms, of y x a acc] by simp
  then show ?case unfolding Cons.IH by simp
qed

lemma unvisited_neighbors_grid:
  assumes "grid_shape (width m) (height m) (visited m)"
  shows "unvisited_neighbors m y x = Inr (map (dir_tgt y x) (filter (un_sel m y x) directions))"
  unfolding unvisited_neighbors_def using unvisited_loop_grid[OF assms, of directions y x "[]"]
  by simp

text \<open>
  The invariant of \<open>while stack\<close>: the grids keep their shape and the doors are well
  formed; the start room and the rooms on the stack are visited; an unvisited room has
  no door; a visited room is joined to the start room; and a visited room that is not on
  the stack has no unvisited neighbour.
\<close>

definition dfs_inv :: "maze \<Rightarrow> (int \<times> int) list \<Rightarrow> bool" where
  "dfs_inv m stack =
     (grid_shape (width m) (height m) (cells m)
      \<and> grid_shape (width m) (height m) (visited m)
      \<and> doors_ok (width m) (height m) (cells m)
      \<and> inb (width m) (height m) (0, 0) \<and> grid_at (visited m) (0, 0)
      \<and> (\<forall>c \<in> set stack. inb (width m) (height m) c \<and> grid_at (visited m) c)
      \<and> (\<forall>c. inb (width m) (height m) c \<longrightarrow> \<not> grid_at (visited m) c \<longrightarrow> grid_at (cells m) c = [])
      \<and> (\<forall>c. inb (width m) (height m) c \<longrightarrow> grid_at (visited m) c \<longrightarrow>
               door_path (width m) (height m) (cells m) c)
      \<and> (\<forall>c. inb (width m) (height m) c \<longrightarrow> grid_at (visited m) c \<longrightarrow> c \<notin> set stack \<longrightarrow>
            (\<forall>d. is_dir d \<longrightarrow> inb (width m) (height m) (door_target c d) \<longrightarrow>
                 grid_at (visited m) (door_target c d))))"

lemma dfs_inv_pop:
  assumes inv: "dfs_inv m stack" and ne: "stack \<noteq> []"
    and closed: "\<And>d. is_dir d \<Longrightarrow> inb (width m) (height m) (door_target (last stack) d) \<Longrightarrow>
                   grid_at (visited m) (door_target (last stack) d)"
  shows "dfs_inv m (butlast stack)"
proof -
  let ?w = "width m" and ?h = "height m" and ?cs = "cells m" and ?vs = "visited m"
  from inv have sh: "grid_shape ?w ?h ?cs" and shv: "grid_shape ?w ?h ?vs"
    and ok: "doors_ok ?w ?h ?cs" and o: "inb ?w ?h (0, 0)" "grid_at ?vs (0, 0)"
    and st: "\<And>c. c \<in> set stack \<Longrightarrow> inb ?w ?h c \<and> grid_at ?vs c"
    and emp: "\<forall>c. inb ?w ?h c \<longrightarrow> \<not> grid_at ?vs c \<longrightarrow> grid_at ?cs c = []"
    and rch: "\<forall>c. inb ?w ?h c \<longrightarrow> grid_at ?vs c \<longrightarrow> door_path ?w ?h ?cs c"
    and cl: "\<And>c d. inb ?w ?h c \<Longrightarrow> grid_at ?vs c \<Longrightarrow> c \<notin> set stack \<Longrightarrow> is_dir d \<Longrightarrow>
               inb ?w ?h (door_target c d) \<Longrightarrow> grid_at ?vs (door_target c d)"
    unfolding dfs_inv_def by blast+
  have "set stack = set (butlast stack @ [last stack])" using ne by simp
  then have set: "set stack = insert (last stack) (set (butlast stack))" by simp
  have p5: "\<forall>c \<in> set (butlast stack). inb ?w ?h c \<and> grid_at ?vs c"
    using st set by blast
  have p8: "\<forall>c. inb ?w ?h c \<longrightarrow> grid_at ?vs c \<longrightarrow> c \<notin> set (butlast stack) \<longrightarrow>
            (\<forall>d. is_dir d \<longrightarrow> inb ?w ?h (door_target c d) \<longrightarrow> grid_at ?vs (door_target c d))"
  proof (intro allI impI)
    fix c d assume i: "inb ?w ?h c" and v: "grid_at ?vs c" and n: "c \<notin> set (butlast stack)"
      and d: "is_dir d" and id: "inb ?w ?h (door_target c d)"
    show "grid_at ?vs (door_target c d)"
    proof (cases "c = last stack")
      case True with closed[OF d] id show ?thesis by simp
    next
      case False
      with n set have "c \<notin> set stack" by simp
      from cl[OF i v this d id] show ?thesis .
    qed
  qed
  show ?thesis
    unfolding dfs_inv_def using sh shv ok o p5 emp rch p8 by simp
qed

lemma dfs_inv_push:
  assumes inv: "dfs_inv m stack" and top: "c \<in> set stack"
    and d: "is_dir d" and t: "inb (width m) (height m) (door_target c d)"
    and unv: "\<not> grid_at (visited m) (door_target c d)"
  shows "dfs_inv (m\<lparr>cells := carved (cells m) c d,
                     visited := grid_upd (visited m) (door_target c d) True\<rparr>)
           (stack @ [door_target c d])"
proof -
  let ?w = "width m" and ?h = "height m" and ?cs = "cells m" and ?vs = "visited m"
  let ?t = "door_target c d"
  let ?cs' = "carved ?cs c d" and ?vs' = "grid_upd ?vs ?t True"
  from inv have sh: "grid_shape ?w ?h ?cs" and shv: "grid_shape ?w ?h ?vs"
    and ok: "doors_ok ?w ?h ?cs" and o: "inb ?w ?h (0, 0)" "grid_at ?vs (0, 0)"
    and st: "\<And>c. c \<in> set stack \<Longrightarrow> inb ?w ?h c \<and> grid_at ?vs c"
    and emp: "\<And>c. inb ?w ?h c \<Longrightarrow> \<not> grid_at ?vs c \<Longrightarrow> grid_at ?cs c = []"
    and rch: "\<And>c. inb ?w ?h c \<Longrightarrow> grid_at ?vs c \<Longrightarrow> door_path ?w ?h ?cs c"
    and cl: "\<And>c d. inb ?w ?h c \<Longrightarrow> grid_at ?vs c \<Longrightarrow> c \<notin> set stack \<Longrightarrow> is_dir d \<Longrightarrow>
               inb ?w ?h (door_target c d) \<Longrightarrow> grid_at ?vs (door_target c d)"
    unfolding dfs_inv_def by blast+
  from st[OF top] have c: "inb ?w ?h c" and cv: "grid_at ?vs c" by auto
  have new: "d \<notin> set (grid_at ?cs c)"
  proof
    assume "d \<in> set (grid_at ?cs c)"
    from doors_okD[OF ok c this] have "grid_at ?cs ?t \<noteq> []" by auto
    with emp[OF t unv] show False by simp
  qed
  note at = grid_at_carved[OF sh c t]
  note atv = grid_at_upd[OF shv t]
  have mono: "\<And>c'. inb ?w ?h c' \<Longrightarrow> set (grid_at ?cs c') \<subseteq> set (grid_at ?cs' c')"
    using at by auto
  have p1: "grid_shape ?w ?h ?cs'" by (rule grid_shape_carved[OF sh])
  have p2: "grid_shape ?w ?h ?vs'" by (rule grid_shape_upd[OF shv])
  have p3: "doors_ok ?w ?h ?cs'" by (rule carved_doors_ok[OF sh ok c d t new])
  have p4: "grid_at ?vs' (0, 0)" using atv[OF o(1)] o(2) by simp
  have p5: "\<forall>c' \<in> set (stack @ [?t]). inb ?w ?h c' \<and> grid_at ?vs' c'"
    using st t atv by auto
  have p6: "\<forall>c'. inb ?w ?h c' \<longrightarrow> \<not> grid_at ?vs' c' \<longrightarrow> grid_at ?cs' c' = []"
  proof (intro allI impI)
    fix c' assume i: "inb ?w ?h c'" and n: "\<not> grid_at ?vs' c'"
    from n atv[OF i] have "c' \<noteq> ?t" "\<not> grid_at ?vs c'" by (auto split: if_splits)
    moreover from this cv have "c' \<noteq> c" by auto
    ultimately show "grid_at ?cs' c' = []" using at[OF i] emp[OF i] by simp
  qed
  have pc: "door_path ?w ?h ?cs' c"
    by (rule door_path_mono[OF rch[OF c cv] mono])
  have dcs: "d \<in> set (grid_at ?cs' c)" using at[OF c] by simp
  have pt: "door_path ?w ?h ?cs' ?t"
    by (rule door_path.door[OF pc c dcs])
  have p7: "\<forall>c'. inb ?w ?h c' \<longrightarrow> grid_at ?vs' c' \<longrightarrow> door_path ?w ?h ?cs' c'"
  proof (intro allI impI)
    fix c' assume i: "inb ?w ?h c'" and v: "grid_at ?vs' c'"
    show "door_path ?w ?h ?cs' c'"
    proof (cases "c' = ?t")
      case True with pt show ?thesis by simp
    next
      case False
      with v atv[OF i] have "grid_at ?vs c'" by simp
      from door_path_mono[OF rch[OF i this] mono] show ?thesis .
    qed
  qed
  have p8: "\<forall>c'. inb ?w ?h c' \<longrightarrow> grid_at ?vs' c' \<longrightarrow> c' \<notin> set (stack @ [?t]) \<longrightarrow>
            (\<forall>e. is_dir e \<longrightarrow> inb ?w ?h (door_target c' e) \<longrightarrow> grid_at ?vs' (door_target c' e))"
  proof (intro allI impI)
    fix c' e assume i: "inb ?w ?h c'" and v: "grid_at ?vs' c'" and n: "c' \<notin> set (stack @ [?t])"
      and e: "is_dir e" and ie: "inb ?w ?h (door_target c' e)"
    from n have "c' \<noteq> ?t" "c' \<notin> set stack" by auto
    with v atv[OF i] have "grid_at ?vs c'" by simp
    from cl[OF i this \<open>c' \<notin> set stack\<close> e ie] atv[OF ie]
    show "grid_at ?vs' (door_target c' e)" by simp
  qed
  show ?thesis
    unfolding dfs_inv_def using p1 p2 p3 o(1) p4 p5 p6 p7 p8 by simp
qed


lemma dfs_step_inv:
  assumes inv: "dfs_inv m stack" and ne: "stack \<noteq> []"
  shows "\<exists>m' stack' g'. dfs_step m stack g = Inr (m', stack', g') \<and> dfs_inv m' stack'
           \<and> width m' = width m \<and> height m' = height m \<and> exit_room m' = exit_room m"
proof -
  let ?w = "width m" and ?h = "height m"
  obtain y x where top: "last stack = (y, x)" by (cases "last stack") auto
  from inv have sh: "grid_shape ?w ?h (cells m)" and shv: "grid_shape ?w ?h (visited m)"
    unfolding dfs_inv_def by blast+
  from ne top have mem: "(y, x) \<in> set stack" by (metis last_in_set)
  with inv have c: "inb ?w ?h (y, x)" unfolding dfs_inv_def by blast
  let ?un = "map (dir_tgt y x) (filter (un_sel m y x) directions)"
  note un = unvisited_neighbors_grid[OF shv, of y x]
  show ?thesis
  proof (cases "?un = []")
    case True
    have closed: "grid_at (visited m) (door_target (last stack) d)"
      if d: "is_dir d" and i: "inb ?w ?h (door_target (last stack) d)" for d
    proof -
      from directions_exist[OF d, of y x] obtain dy dx where
        a: "(dy, dx, d, opposite d) \<in> set directions" and e: "(y + dy, x + dx) = door_target (y, x) d"
        by blast
      from True a have "\<not> un_sel m y x (dy, dx, d, opposite d)"
        by (auto simp: filter_empty_conv)
      with i show ?thesis unfolding un_sel_grid[OF shv] e top by simp
    qed
    have "dfs_step m stack g = Inr (m, butlast stack, g)"
      using True by (simp add: dfs_step_def top un)
    with dfs_inv_pop[OF inv ne closed] show ?thesis by simp
  next
    case False
    define cand where "cand = ?un ! (g 0 mod length ?un)"
    have rc: "random_choice ?un g = Inr (cand, rng_tail g)"
      using False by (simp add: random_choice_def cand_def)
    have "cand \<in> set ?un"
      unfolding cand_def using False by (intro nth_mem) simp
    then obtain a where a: "a \<in> set directions" "un_sel m y x a"
      and cand: "cand = dir_tgt y x a" by auto
    obtain dy dx d opp where a4: "a = (dy, dx, d, opp)" by (cases a) auto
    let ?t = "door_target (y, x) d"
    from a(1) have d: "is_dir d" and opp: "opp = opposite d" and e: "(y + dy, x + dx) = ?t"
      unfolding a4 directions_mem[of dy dx d opp y x] by auto
    from e have e2: "y + dy = fst ?t" "x + dx = snd ?t" by (simp_all add: prod_eq_iff)
    from a(2) have t: "inb ?w ?h ?t" and unv: "\<not> grid_at (visited m) ?t"
      unfolding a4 un_sel_grid[OF shv] e by auto
    have cand': "cand = (fst ?t, snd ?t, d, opposite d)"
      by (simp add: cand a4 dir_tgt_def opp e2)
    have t': "inb ?w ?h (fst ?t, snd ?t)" using t by simp
    have un': "unvisited_neighbors m y x = Inr ?un" by (rule un)
    have
      "dfs_step m stack g =
         Inr (m\<lparr>cells := carved (cells m) (y, x) d, visited := grid_upd (visited m) ?t True\<rparr>,
              stack @ [?t], rng_tail g)"
      using False rc[unfolded cand'] carve_grid[OF sh c t] py_set2_grid[OF shv t', of True]
      by (simp add: dfs_step_def top un')
    with dfs_inv_push[OF inv mem d t unv] show ?thesis by simp
  qed
qed

lemma dfs_loop_inv:
  assumes "dfs_inv m stack"
  shows "\<exists>m' g'. dfs_loop m stack g = Inr (m', g') \<and> dfs_inv m' []
           \<and> width m' = width m \<and> height m' = height m \<and> exit_room m' = exit_room m"
  using assms
proof (induction m stack g rule: dfs_loop.induct)
  case (1 m stack g)
  show ?case
  proof (cases "stack = []")
    case True
    with "1.prems" show ?thesis by (simp add: dfs_loop.simps)
  next
    case False
    from dfs_step_inv[OF "1.prems" False, of g] obtain m' stack' g' where
      st: "dfs_step m stack g = Inr (m', stack', g')" and inv': "dfs_inv m' stack'"
      and eq: "width m' = width m" "height m' = height m" "exit_room m' = exit_room m"
      by blast
    from "1.IH"[OF False st refl refl inv'] eq
    show ?thesis
      using False st by (subst dfs_loop.simps) simp
  qed
qed

text \<open>When the stack is empty every room of the grid has been visited.\<close>

lemma closed_all_visited:
  assumes o: "V (0, 0)"
    and cl: "\<And>c d. inb w h c \<Longrightarrow> V c \<Longrightarrow> is_dir d \<Longrightarrow> inb w h (door_target c d) \<Longrightarrow>
               V (door_target c d)"
    and c: "inb w h (y, x)"
  shows "V (y, x)"
proof -
  have col: "0 \<le> y' \<Longrightarrow> y' < h \<Longrightarrow> V (y', 0)" for y'
  proof (induction y' rule: int_ge_induct)
    case base
    show ?case by (rule o)
  next
    case (step i)
    then have "V (i, 0)" by simp
    moreover have "inb w h (i, 0)" "inb w h (i + 1, 0)"
      using step c by (auto simp: inb_def)
    moreover have "door_target (i, 0) 1 = (i + 1, 0)" by (simp add: door_target_def)
    ultimately show ?case using cl[of "(i, 0)" 1] by (simp add: is_dir_def)
  qed
  have row: "0 \<le> x' \<Longrightarrow> x' < w \<Longrightarrow> V (y, x')" for x'
  proof (induction x' rule: int_ge_induct)
    case base
    show ?case using col[of y] c by (simp add: inb_def)
  next
    case (step i)
    then have "V (y, i)" by simp
    moreover have "inb w h (y, i)" "inb w h (y, i + 1)"
      using step c by (auto simp: inb_def)
    moreover have "door_target (y, i) 2 = (y, i + 1)" by (simp add: door_target_def)
    ultimately show ?case using cl[of "(y, i)" 2] by (simp add: is_dir_def)
  qed
  show ?thesis using row[of x] c by (simp add: inb_def)
qed

lemma dfs_inv_final:
  assumes "dfs_inv m []" and "inb (width m) (height m) c"
  shows "grid_at (visited m) c" and "door_path (width m) (height m) (cells m) c"
proof -
  obtain y x where c: "c = (y, x)" by (cases c) auto
  have "grid_at (visited m) (y, x)"
  proof (rule closed_all_visited[where V = "grid_at (visited m)" and w = "width m" and h = "height m"])
    show "grid_at (visited m) (0, 0)" using assms(1) unfolding dfs_inv_def by blast
    show "inb (width m) (height m) (y, x)" using assms(2) c by simp
    show "grid_at (visited m) (door_target c d)"
      if "inb (width m) (height m) c" "grid_at (visited m) c" "is_dir d"
         "inb (width m) (height m) (door_target c d)" for c d
      using assms(1) that unfolding dfs_inv_def by (simp del: split_paired_All)
  qed
  then show v: "grid_at (visited m) c" by (simp add: c)
  with assms show "door_path (width m) (height m) (cells m) c"
    unfolding dfs_inv_def by blast
qed

subsection \<open>The densification phase\<close>

text \<open>An invariant rule for \<open>for\<close> loops: \<open>I p s\<close> holds when the prefix \<open>p\<close> has been processed.\<close>

lemma for_loop_rule_aux:
  assumes "I pre s"
    and "\<And>p a post s. pre @ ys = p @ a # post \<Longrightarrow> I p s \<Longrightarrow>
           \<exists>s'. body a s = Inr s' \<and> I (p @ [a]) s'"
  shows "\<exists>s'. for_loop ys body s = Inr s' \<and> I (pre @ ys) s'"
  using assms
proof (induction ys arbitrary: pre s)
  case Nil
  then show ?case by simp
next
  case (Cons a ys)
  from Cons.prems(2)[of pre a ys s] Cons.prems(1) obtain s1 where
    b: "body a s = Inr s1" and i: "I (pre @ [a]) s1" by auto
  have "\<exists>s'. for_loop ys body s1 = Inr s' \<and> I ((pre @ [a]) @ ys) s'"
  proof (rule Cons.IH[OF i])
    fix p a' post s'
    assume "(pre @ [a]) @ ys = p @ a' # post" "I p s'"
    then show "\<exists>s''. body a' s' = Inr s'' \<and> I (p @ [a']) s''"
      using Cons.prems(2)[of p a' post s'] by simp
  qed
  with b show ?case by simp
qed

lemma for_loop_rule:
  assumes "I [] s"
    and "\<And>p a post s. xs = p @ a # post \<Longrightarrow> I p s \<Longrightarrow>
           \<exists>s'. body a s = Inr s' \<and> I (p @ [a]) s'"
  shows "\<exists>s'. for_loop xs body s = Inr s' \<and> I xs s'"
  using for_loop_rule_aux[of I "[]" s xs body] assms by simp

lemma upt_split:
  assumes "[0..<n] = p @ a # post"
  shows "a < n" and "a = length p"
proof -
  have l: "length p < n" using arg_cong[OF assms, of length] by simp
  have "[0..<n] ! length p = a" unfolding assms by simp
  with l show "a = length p" by simp
  with l show "a < n" by simp
qed

lemma shuffle_loop_mset:
  "k < length xs \<or> k = 0 \<Longrightarrow> mset (fst (shuffle_loop k xs g)) = mset xs"
proof (induction k arbitrary: xs g)
  case 0
  show ?case by simp
next
  case (Suc k)
  then have i: "Suc k < length xs" by simp
  have "g 0 mod (Suc k + 1) < Suc k + 1" by (rule mod_less_divisor) simp
  with i have j: "g 0 mod (Suc k + 1) < length xs" by linarith
  let ?xs' = "xs[Suc k := xs ! (g 0 mod (Suc k + 1)), g 0 mod (Suc k + 1) := xs ! Suc k]"
  have m: "mset ?xs' = mset xs" by (rule mset_swap[OF j i])
  have "k < length ?xs'" using i by simp
  from Suc.IH[of ?xs' "rng_tail g"] this m show ?case by (simp add: Let_def)
qed

lemma random_shuffle_mset: "mset (fst (random_shuffle xs g)) = mset xs"
  unfolding random_shuffle_def by (rule shuffle_loop_mset) (cases xs; simp)

definition pos_sel :: "maze \<Rightarrow> int \<Rightarrow> int \<Rightarrow> int \<times> int \<times> int \<times> int \<Rightarrow> bool" where
  "pos_sel m y x dir = (case dir of (dy, dx, d, opp) \<Rightarrow>
      inb (width m) (height m) (y + dy, x + dx) \<and> d \<notin> set (grid_at (cells m) (y, x)))"

lemma possible_body_grid:
  assumes "grid_shape (width m) (height m) (cells m)" "inb (width m) (height m) (y, x)"
  shows "possible_body m y x a acc = Inr (acc @ map (dir_tgt y x) (filter (pos_sel m y x) [a]))"
proof -
  obtain dy dx d opp where a: "a = (dy, dx, d, opp)" by (cases a) auto
  from py_get2_grid[OF assms] show ?thesis
    by (auto simp: a possible_body_def pos_sel_def inb_def dir_tgt_def Let_def)
qed

lemma possible_loop_grid:
  assumes "grid_shape (width m) (height m) (cells m)" "inb (width m) (height m) (y, x)"
  shows "for_loop ds (possible_body m y x) acc
         = Inr (acc @ map (dir_tgt y x) (filter (pos_sel m y x) ds))"
proof (induction ds arbitrary: acc)
  case Nil show ?case by simp
next
  case (Cons a ds)
  have "for_loop (a # ds) (possible_body m y x) acc
          = for_loop ds (possible_body m y x) (acc @ map (dir_tgt y x) (filter (pos_sel m y x) [a]))"
    using possible_body_grid[OF assms, of a acc] by simp
  then show ?case unfolding Cons.IH by simp
qed


text \<open>One grid of doors extends another: no room loses a door.\<close>

definition door_ext :: "int \<Rightarrow> int \<Rightarrow> int list list list \<Rightarrow> int list list list \<Rightarrow> bool" where
  "door_ext w h cs cs' =
     (\<forall>c. inb w h c \<longrightarrow> set (grid_at cs c) \<subseteq> set (grid_at cs' c)
                        \<and> length (grid_at cs c) \<le> length (grid_at cs' c))"

lemma door_ext_refl: "door_ext w h cs cs"
  by (simp add: door_ext_def)

lemma door_ext_trans: "door_ext w h cs cs' \<Longrightarrow> door_ext w h cs' cs'' \<Longrightarrow> door_ext w h cs cs''"
  unfolding door_ext_def by (meson order_trans)

lemma door_ext_carved:
  assumes "grid_shape w h cs" "inb w h c" "inb w h (door_target c d)"
  shows "door_ext w h cs (carved cs c d)"
  unfolding door_ext_def using grid_at_carved[OF assms] by auto

definition dird :: "int \<times> int \<times> int \<times> int \<Rightarrow> int" where
  "dird cand = fst (snd (snd cand))"

lemma distinct_nth_notin_take:
  assumes "distinct xs" "a < length xs"
  shows "xs ! a \<notin> set (take a xs)"
proof
  assume "xs ! a \<in> set (take a xs)"
  then obtain i where i: "i < length (take a xs)" "take a xs ! i = xs ! a"
    by (auto simp: in_set_conv_nth)
  then have "i < a" "xs ! i = xs ! a" by simp_all
  with assms show False by (auto simp: distinct_conv_nth)
qed

lemma dird_dir_tgt: "dird (dir_tgt y x a) = dird a"
  by (cases a) (simp add: dird_def dir_tgt_def)

lemma distinct_dird_directions: "distinct (map dird directions)"
  by (simp add: directions_def dird_def)

lemma possible_adds_facts:
  fixes m y x
  defines "possible \<equiv> map (dir_tgt y x) (filter (pos_sel m y x) directions)"
  assumes mset: "mset shuffled = mset possible"
  shows "distinct (map dird shuffled)"
    and "\<And>cand. cand \<in> set shuffled \<Longrightarrow>
           is_dir (dird cand) \<and> dird cand \<notin> set (grid_at (cells m) (y, x))
           \<and> inb (width m) (height m) (door_target (y, x) (dird cand))
           \<and> cand = (fst (door_target (y, x) (dird cand)), snd (door_target (y, x) (dird cand)),
                      dird cand, opposite (dird cand))"
proof -
  have "map dird possible = map dird (filter (pos_sel m y x) directions)"
    by (simp add: possible_def dird_dir_tgt)
  then have "distinct (map dird possible)"
    using distinct_dird_directions by (simp add: distinct_map_filter)
  moreover have "mset (map dird shuffled) = mset (map dird possible)"
    using mset by simp
  ultimately show "distinct (map dird shuffled)"
    by (metis mset_eq_imp_distinct_iff)
next
  fix cand assume "cand \<in> set shuffled"
  then have "cand \<in> set possible" using mset by (metis mset_eq_setD)
  then obtain a where a: "a \<in> set directions" "pos_sel m y x a" "cand = dir_tgt y x a"
    by (auto simp: possible_def)
  obtain dy dx d opp where a4: "a = (dy, dx, d, opp)" by (cases a) auto
  from a(1) have d: "is_dir d" and opp: "opp = opposite d"
    and e: "(y + dy, x + dx) = door_target (y, x) d"
    unfolding a4 directions_mem[of dy dx d opp y x] by auto
  from e have e2: "y + dy = fst (door_target (y, x) d)" "x + dx = snd (door_target (y, x) d)"
    by (simp_all add: prod_eq_iff)
  have dc: "dird cand = d" by (simp add: a(3) a4 dird_def dir_tgt_def)
  from a(2) have "inb (width m) (height m) (door_target (y, x) d)"
    and "d \<notin> set (grid_at (cells m) (y, x))"
    using e by (simp_all add: a4 pos_sel_def)
  with d show "is_dir (dird cand) \<and> dird cand \<notin> set (grid_at (cells m) (y, x))
           \<and> inb (width m) (height m) (door_target (y, x) (dird cand))
           \<and> cand = (fst (door_target (y, x) (dird cand)), snd (door_target (y, x) (dird cand)),
                      dird cand, opposite (dird cand))"
    unfolding dc by (simp add: a(3) a4 dir_tgt_def opp e2)
qed

lemma add_loop_grid:
  fixes w h :: int
  assumes sh: "grid_shape w h cs" and ok: "doors_ok w h cs" and c: "inb w h (y, x)"
    and dist: "distinct (map dird shuffled)"
    and cands: "\<And>cand. cand \<in> set shuffled \<Longrightarrow>
           is_dir (dird cand) \<and> dird cand \<notin> set (grid_at cs (y, x))
           \<and> inb w h (door_target (y, x) (dird cand))
           \<and> cand = (fst (door_target (y, x) (dird cand)), snd (door_target (y, x) (dird cand)),
                      dird cand, opposite (dird cand))"
    and n: "n \<le> length shuffled"
  shows "\<exists>cs'. for_loop [0..<n] (add_body y x shuffled) cs = Inr cs'
           \<and> grid_shape w h cs' \<and> doors_ok w h cs' \<and> door_ext w h cs cs'
           \<and> grid_at cs' (y, x) = grid_at cs (y, x) @ map dird (take n shuffled)"
proof -
  define I where "I p cs' \<longleftrightarrow>
      grid_shape w h cs' \<and> doors_ok w h cs' \<and> door_ext w h cs cs'
      \<and> grid_at cs' (y, x) = grid_at cs (y, x) @ map dird (take (length p) shuffled)"
    for p :: "nat list" and cs'
  have "\<exists>cs'. for_loop [0..<n] (add_body y x shuffled) cs = Inr cs' \<and> I [0..<n] cs'"
  proof (rule for_loop_rule)
    show "I [] cs" using sh ok by (simp add: I_def door_ext_refl)
  next
    fix p a post s
    assume split: "[0..<n] = p @ a # post" and i: "I p s"
    note an = upt_split(1)[OF split] and ap = upt_split(2)[OF split]
    with n have al: "a < length shuffled" by simp
    define cand where "cand = shuffled ! a"
    let ?d = "dird cand"
    have mem: "cand \<in> set shuffled" using al by (simp add: cand_def)
    from cands[OF mem] have d: "is_dir ?d" and dn: "?d \<notin> set (grid_at cs (y, x))"
      and t: "inb w h (door_target (y, x) ?d)"
      and ce: "cand = (fst (door_target (y, x) ?d), snd (door_target (y, x) ?d), ?d, opposite ?d)"
      by blast+
    from i have shs: "grid_shape w h s" and oks: "doors_ok w h s" and ext: "door_ext w h cs s"
      and at: "grid_at s (y, x) = grid_at cs (y, x) @ map dird (take a shuffled)"
      by (simp_all add: I_def ap)
    have "map dird shuffled ! a \<notin> set (take a (map dird shuffled))"
      using distinct_nth_notin_take[OF dist] al by simp
    then have "?d \<notin> set (map dird (take a shuffled))"
      using al by (simp add: cand_def take_map)
    with dn at have new: "?d \<notin> set (grid_at s (y, x))" by simp
    have g: "py_get shuffled (int a) = Inr cand"
      using al by (simp add: py_get_def py_index_def cand_def)
    have cv: "carve s y x cand = Inr (carved s (y, x) ?d)"
      using carve_grid[OF shs c t] ce by simp
    have body: "add_body y x shuffled a s = Inr (carved s (y, x) ?d)"
      by (simp add: add_body_def g cv)
    have "take (Suc a) shuffled = take a shuffled @ [cand]"
      using al by (simp add: take_Suc_conv_app_nth cand_def)
    then have at': "grid_at (carved s (y, x) ?d) (y, x)
        = grid_at cs (y, x) @ map dird (take (length (p @ [a])) shuffled)"
      using grid_at_carved[OF shs c t c] at ap by simp
    have "I (p @ [a]) (carved s (y, x) ?d)"
      unfolding I_def
      using grid_shape_carved[OF shs] carved_doors_ok[OF shs oks c d t new]
        door_ext_trans[OF ext door_ext_carved[OF shs c t]] at'
      by blast
    with body show "\<exists>s'. add_body y x shuffled a s = Inr s' \<and> I (p @ [a]) s'" by blast
  qed
  then show ?thesis by (simp add: I_def)
qed

lemma two_open_directions:
  assumes "2 \<le> w" "2 \<le> h" "inb w h c"
  shows "\<exists>d1 d2. is_dir d1 \<and> is_dir d2 \<and> d1 \<noteq> d2
           \<and> inb w h (door_target c d1) \<and> inb w h (door_target c d2)"
proof -
  have v: "inb w h (door_target c 0) \<or> inb w h (door_target c 1)"
    using assms by (auto simp: inb_def door_target_def)
  have hz: "inb w h (door_target c 2) \<or> inb w h (door_target c 3)"
    using assms by (auto simp: inb_def door_target_def)
  from v hz show ?thesis
    by (elim disjE) (force simp: is_dir_def)+
qed

lemma degree_plus_possible:
  assumes w: "2 \<le> width m" and h: "2 \<le> height m" and c: "inb (width m) (height m) (y, x)"
  shows "2 \<le> length (grid_at (cells m) (y, x)) + length (filter (pos_sel m y x) directions)"
proof -
  let ?A = "set (grid_at (cells m) (y, x))"
  let ?B = "dird ` set (filter (pos_sel m y x) directions)"
  from two_open_directions[OF w h c] obtain d1 d2 where
    d: "is_dir d1" "is_dir d2" "d1 \<noteq> d2"
    and i: "inb (width m) (height m) (door_target (y, x) d1)"
           "inb (width m) (height m) (door_target (y, x) d2)"
    by blast
  have one: "d \<in> ?A \<union> ?B" if "is_dir d" "inb (width m) (height m) (door_target (y, x) d)" for d
  proof (cases "d \<in> ?A")
    case True then show ?thesis by simp
  next
    case False
    from directions_exist[OF that(1), of y x] obtain dy dx where
      a: "(dy, dx, d, opposite d) \<in> set directions" and e: "(y + dy, x + dx) = door_target (y, x) d"
      by blast
    have "pos_sel m y x (dy, dx, d, opposite d)"
      using False that(2) by (simp add: pos_sel_def e)
    with a have "(dy, dx, d, opposite d) \<in> set (filter (pos_sel m y x) directions)" by simp
    then have "dird (dy, dx, d, opposite d) \<in> ?B" by (rule imageI)
    then show ?thesis by (simp add: dird_def)
  qed
  have "{d1, d2} \<subseteq> ?A \<union> ?B" using one[OF d(1) i(1)] one[OF d(2) i(2)] by simp
  then have "card {d1, d2} \<le> card (?A \<union> ?B)" by (intro card_mono) auto
  also have "\<dots> \<le> card ?A + card ?B" by (rule card_Un_le)
  also have "\<dots> \<le> length (grid_at (cells m) (y, x)) + length (filter (pos_sel m y x) directions)"
    by (intro add_mono card_length order_trans[OF card_image_le card_length]) simp
  finally show ?thesis using d(3) by simp
qed


text \<open>
  What the densification keeps and adds: the frame (width, height, exit) stays, the doors
  stay well formed, no door is lost, and with at least two rows and two columns the room
  treated ends with two doors or more.
\<close>

definition maze_ok :: "maze \<Rightarrow> bool" where
  "maze_ok m = (grid_shape (width m) (height m) (cells m)
                \<and> doors_ok (width m) (height m) (cells m))"

definition same_frame :: "maze \<Rightarrow> maze \<Rightarrow> bool" where
  "same_frame m m' = (width m' = width m \<and> height m' = height m \<and> exit_room m' = exit_room m)"

lemma densify_cell_ok:
  assumes mok: "maze_ok m" and c: "inb (width m) (height m) (y, x)"
  shows "\<exists>m' g'. densify_cell y x (m, g) = Inr (m', g') \<and> same_frame m m' \<and> maze_ok m'
           \<and> door_ext (width m) (height m) (cells m) (cells m')
           \<and> (2 \<le> width m \<longrightarrow> 2 \<le> height m \<longrightarrow> 2 \<le> length (grid_at (cells m') (y, x)))"
proof -
  let ?w = "width m" and ?h = "height m" and ?cs = "cells m"
  from mok have sh: "grid_shape ?w ?h ?cs" and ok: "doors_ok ?w ?h ?cs"
    by (simp_all add: maze_ok_def)
  note get = py_get2_grid[OF sh c]
  let ?deg = "int (length (grid_at ?cs (y, x)))"
  show ?thesis
  proof (cases "?deg < 4")
    case False
    then have "densify_cell y x (m, g) = Inr (m, g)"
      by (simp add: densify_cell_def get Let_def)
    moreover have "2 \<le> length (grid_at ?cs (y, x))" using False by simp
    ultimately show ?thesis
      using mok by (simp add: same_frame_def door_ext_refl)
  next
    case True
    let ?possible = "map (dir_tgt y x) (filter (pos_sel m y x) directions)"
    have poss: "for_loop directions (possible_body m y x) [] = Inr ?possible"
      using possible_loop_grid[OF sh c, of directions "[]"] by simp
    obtain shuffled g' where shf: "random_shuffle ?possible g = (shuffled, g')"
      by (cases "random_shuffle ?possible g") auto
    have ms: "mset shuffled = mset ?possible"
      using random_shuffle_mset[of ?possible g] shf by simp
    then have len: "length shuffled = length (filter (pos_sel m y x) directions)"
      using mset_eq_length[OF ms] by simp
    define adds where "adds = min (max (2 - ?deg) 0) (int (length shuffled))"
    have n: "nat adds \<le> length shuffled" by (simp add: adds_def)
    note facts = possible_adds_facts[OF ms]
    from add_loop_grid[OF sh ok c facts(1) facts(2) n] obtain cs' where
      loop: "for_loop [0..<nat adds] (add_body y x shuffled) ?cs = Inr cs'"
      and sh': "grid_shape ?w ?h cs'" and ok': "doors_ok ?w ?h cs'"
      and ext: "door_ext ?w ?h ?cs cs'"
      and at: "grid_at cs' (y, x) = grid_at ?cs (y, x) @ map dird (take (nat adds) shuffled)"
      by blast
    have res: "densify_cell y x (m, g) = Inr (m\<lparr>cells := cs'\<rparr>, g')"
      using True loop
      by (simp add: densify_cell_def get Let_def poss shf adds_def[symmetric])
    have l: "length (grid_at cs' (y, x)) = length (grid_at ?cs (y, x)) + nat adds"
      using n by (simp add: at)
    have two: "2 \<le> length (grid_at cs' (y, x))" if "2 \<le> ?w" "2 \<le> ?h"
    proof -
      from degree_plus_possible[OF that c]
      have "2 \<le> length (grid_at ?cs (y, x)) + length shuffled" by (simp add: len)
      then show ?thesis unfolding l adds_def by linarith
    qed
    show ?thesis
      using res sh' ok' ext two by (simp add: same_frame_def maze_ok_def)
  qed
qed

lemma door_ext_degree:
  "door_ext w h cs cs' \<Longrightarrow> inb w h c \<Longrightarrow> 2 \<le> length (grid_at cs c) \<Longrightarrow>
   2 \<le> length (grid_at cs' c)"
  unfolding door_ext_def by (meson order_trans)

lemma densify_row_ok:
  assumes mok: "maze_ok m" and y: "0 \<le> y" "y < height m"
  shows "\<exists>m' g'. for_loop [0..<nat (width m)] (\<lambda>x. densify_cell y (int x)) (m, g) = Inr (m', g')
           \<and> same_frame m m' \<and> maze_ok m'
           \<and> door_ext (width m) (height m) (cells m) (cells m')
           \<and> (2 \<le> width m \<longrightarrow> 2 \<le> height m \<longrightarrow>
                (\<forall>x. 0 \<le> x \<and> x < width m \<longrightarrow> 2 \<le> length (grid_at (cells m') (y, x))))"
proof -
  let ?w = "width m" and ?h = "height m"
  define I where "I p s \<longleftrightarrow>
      same_frame m (fst s) \<and> maze_ok (fst s) \<and> door_ext ?w ?h (cells m) (cells (fst s))
      \<and> (2 \<le> ?w \<longrightarrow> 2 \<le> ?h \<longrightarrow> (\<forall>x \<in> set p. 2 \<le> length (grid_at (cells (fst s)) (y, int x))))"
    for p :: "nat list" and s :: "maze \<times> rng"
  have "\<exists>s'. for_loop [0..<nat ?w] (\<lambda>x. densify_cell y (int x)) (m, g) = Inr s' \<and> I [0..<nat ?w] s'"
  proof (rule for_loop_rule)
    show "I [] (m, g)" using mok by (simp add: I_def same_frame_def door_ext_refl)
  next
    fix p a post s
    assume split: "[0..<nat ?w] = p @ a # post" and i: "I p s"
    obtain m1 g1 where s: "s = (m1, g1)" by (cases s) auto
    note an = upt_split(1)[OF split]
    from i have fr: "same_frame m m1" and ok1: "maze_ok m1"
      and ext: "door_ext ?w ?h (cells m) (cells m1)"
      and two: "2 \<le> ?w \<Longrightarrow> 2 \<le> ?h \<Longrightarrow> x \<in> set p \<Longrightarrow> 2 \<le> length (grid_at (cells m1) (y, int x))" for x
      by (simp_all add: I_def s)
    from fr have dims: "width m1 = ?w" "height m1 = ?h" by (simp_all add: same_frame_def)
    have c: "inb (width m1) (height m1) (y, int a)"
      using an y by (simp add: inb_def dims)
    from densify_cell_ok[OF ok1 c, of g1] obtain m2 g2 where
      r: "densify_cell y (int a) (m1, g1) = Inr (m2, g2)" and fr2: "same_frame m1 m2"
      and ok2: "maze_ok m2" and ext2: "door_ext ?w ?h (cells m1) (cells m2)"
      and two2: "2 \<le> ?w \<Longrightarrow> 2 \<le> ?h \<Longrightarrow> 2 \<le> length (grid_at (cells m2) (y, int a))"
      unfolding dims by blast
    have old: "2 \<le> length (grid_at (cells m2) (y, int x))"
      if "2 \<le> ?w" "2 \<le> ?h" "x \<in> set p" for x
    proof -
      from that(3) split have "x \<in> set [0..<nat ?w]" by simp
      then have "inb ?w ?h (y, int x)" using y by (simp add: inb_def)
      from door_ext_degree[OF ext2 this two[OF that]] show ?thesis .
    qed
    have "I (p @ [a]) (m2, g2)"
      unfolding I_def
      using fr fr2 ok2 door_ext_trans[OF ext ext2] two2 old
      by (auto simp: same_frame_def)
    with r show "\<exists>s'. densify_cell y (int a) s = Inr s' \<and> I (p @ [a]) s'"
      by (auto simp: s)
  qed
  then obtain m' g' where
    r: "for_loop [0..<nat ?w] (\<lambda>x. densify_cell y (int x)) (m, g) = Inr (m', g')"
    and i: "I [0..<nat ?w] (m', g')" by auto
  have "2 \<le> length (grid_at (cells m') (y, x))"
    if "2 \<le> ?w" "2 \<le> ?h" "0 \<le> x \<and> x < ?w" for x
  proof -
    from that(3) have mem: "nat x \<in> set [0..<nat ?w]" by simp
    from i that(1,2) have "\<forall>x \<in> set [0..<nat ?w]. 2 \<le> length (grid_at (cells m') (y, int x))"
      unfolding I_def by simp
    from bspec[OF this mem] that(3) show ?thesis by simp
  qed
  with r i show ?thesis unfolding I_def by auto
qed

lemma densify_ok:
  assumes mok: "maze_ok m"
  shows "\<exists>m' g'. densify m g = Inr (m', g') \<and> same_frame m m' \<and> maze_ok m'
           \<and> door_ext (width m) (height m) (cells m) (cells m')
           \<and> (2 \<le> width m \<longrightarrow> 2 \<le> height m \<longrightarrow>
                (\<forall>c. inb (width m) (height m) c \<longrightarrow> 2 \<le> length (grid_at (cells m') c)))"
proof -
  let ?w = "width m" and ?h = "height m"
  let ?body = "\<lambda>y s. for_loop [0..<nat (width (fst s))] (\<lambda>x. densify_cell (int y) (int x)) s"
  define I where "I p s \<longleftrightarrow>
      same_frame m (fst s) \<and> maze_ok (fst s) \<and> door_ext ?w ?h (cells m) (cells (fst s))
      \<and> (2 \<le> ?w \<longrightarrow> 2 \<le> ?h \<longrightarrow>
           (\<forall>y \<in> set p. \<forall>x. 0 \<le> x \<and> x < ?w \<longrightarrow> 2 \<le> length (grid_at (cells (fst s)) (int y, x))))"
    for p :: "nat list" and s :: "maze \<times> rng"
  have "\<exists>s'. for_loop [0..<nat ?h] ?body (m, g) = Inr s' \<and> I [0..<nat ?h] s'"
  proof (rule for_loop_rule)
    show "I [] (m, g)" using mok by (simp add: I_def same_frame_def door_ext_refl)
  next
    fix p a post s
    assume split: "[0..<nat ?h] = p @ a # post" and i: "I p s"
    obtain m1 g1 where s: "s = (m1, g1)" by (cases s) auto
    note an = upt_split(1)[OF split]
    from i have fr: "same_frame m m1" and ok1: "maze_ok m1"
      and ext: "door_ext ?w ?h (cells m) (cells m1)"
      and two: "2 \<le> ?w \<Longrightarrow> 2 \<le> ?h \<Longrightarrow> y \<in> set p \<Longrightarrow> 0 \<le> x \<and> x < ?w \<Longrightarrow>
                  2 \<le> length (grid_at (cells m1) (int y, x))" for y x
      by (simp_all add: I_def s)
    from fr have dims: "width m1 = ?w" "height m1 = ?h" by (simp_all add: same_frame_def)
    have y: "0 \<le> int a" "int a < height m1" using an by (simp_all add: dims)
    from densify_row_ok[OF ok1 y, of g1] obtain m2 g2 where
      r: "for_loop [0..<nat ?w] (\<lambda>x. densify_cell (int a) (int x)) (m1, g1) = Inr (m2, g2)"
      and fr2: "same_frame m1 m2" and ok2: "maze_ok m2"
      and ext2: "door_ext ?w ?h (cells m1) (cells m2)"
      and two2: "2 \<le> ?w \<Longrightarrow> 2 \<le> ?h \<Longrightarrow> 0 \<le> x \<and> x < ?w \<Longrightarrow>
                  2 \<le> length (grid_at (cells m2) (int a, x))" for x
      unfolding dims by blast
    have old: "2 \<le> length (grid_at (cells m2) (int y, x))"
      if "2 \<le> ?w" "2 \<le> ?h" "y \<in> set p" "0 \<le> x \<and> x < ?w" for y x
    proof -
      from that(3) split have "y \<in> set [0..<nat ?h]" by simp
      then have "inb ?w ?h (int y, x)" using that(4) by (simp add: inb_def)
      from door_ext_degree[OF ext2 this two[OF that]] show ?thesis .
    qed
    have "I (p @ [a]) (m2, g2)"
      unfolding I_def
      using fr fr2 ok2 door_ext_trans[OF ext ext2] two2 old
      by (auto simp: same_frame_def)
    with r show "\<exists>s'. ?body a s = Inr s' \<and> I (p @ [a]) s'"
      by (auto simp: s dims)
  qed
  then obtain m' g' where
    r: "for_loop [0..<nat ?h] ?body (m, g) = Inr (m', g')"
    and i: "I [0..<nat ?h] (m', g')" by auto
  have "2 \<le> length (grid_at (cells m') c)"
    if "2 \<le> ?w" "2 \<le> ?h" "inb ?w ?h c" for c
  proof -
    from that(3) have mem: "nat (fst c) \<in> set [0..<nat ?h]" and x: "0 \<le> snd c \<and> snd c < ?w"
      and f: "0 \<le> fst c" by (simp_all add: inb_def)
    from i that(1,2) have "\<forall>y \<in> set [0..<nat ?h]. \<forall>x. 0 \<le> x \<and> x < ?w \<longrightarrow>
        2 \<le> length (grid_at (cells m') (int y, x))"
      unfolding I_def by simp
    from bspec[OF this mem] x have "2 \<le> length (grid_at (cells m') (int (nat (fst c)), snd c))"
      by blast
    with f show ?thesis by simp
  qed
  with r i show ?thesis unfolding I_def densify_def by auto
qed

subsection \<open>Generation and construction\<close>

text \<open>The grids of a new \<open>Maze\<close> before \<open>generate_maze\<close> runs (lines 6-9).\<close>

definition fresh_maze :: "int \<Rightarrow> int \<Rightarrow> maze" where
  "fresh_maze w h = \<lparr>width = w, height = h,
                      cells = replicate (nat h) (replicate (nat w) []),
                      visited = replicate (nat h) (replicate (nat w) False),
                      exit_room = None\<rparr>"

lemma dfs_inv_initial:
  assumes "0 < w" "0 < h"
  shows "dfs_inv ((fresh_maze w h)\<lparr>visited := grid_upd (visited (fresh_maze w h)) (0, 0) True\<rparr>) [(0, 0)]"
proof -
  let ?vs = "replicate (nat h) (replicate (nat w) False)"
  let ?cs = "replicate (nat h) (replicate (nat w) ([]::int list))"
  have o: "inb w h (0, 0)" using assms by (simp add: inb_def)
  have shv: "grid_shape w h ?vs" and shc: "grid_shape w h ?cs"
    by (rule grid_shape_replicate)+
  have atv: "grid_at (grid_upd ?vs (0, 0) True) c = (c = (0, 0))" if "inb w h c" for c
    using grid_at_upd[OF shv o that, of True] grid_at_replicate[OF that, of False] by simp
  have atc: "grid_at ?cs c = []" if "inb w h c" for c
    by (rule grid_at_replicate[OF that])
  have ok: "doors_ok w h ?cs"
    unfolding doors_ok_def using atc by simp
  show ?thesis
    unfolding dfs_inv_def fresh_maze_def
    using o shc grid_shape_upd[OF shv] ok atv atc
    by (auto intro: door_path.start)
qed

lemma generate_maze_ok:
  assumes "0 < w" "0 < h"
  shows "\<exists>m g'. generate_maze (fresh_maze w h) g = Inr (m, g') \<and> width m = w \<and> height m = h
           \<and> exit_room m = None \<and> maze_ok m
           \<and> (\<forall>c. inb w h c \<longrightarrow> door_path w h (cells m) c)
           \<and> (2 \<le> w \<longrightarrow> 2 \<le> h \<longrightarrow> (\<forall>c. inb w h c \<longrightarrow> 2 \<le> length (grid_at (cells m) c)))"
proof -
  let ?m0 = "fresh_maze w h"
  have o: "inb w h (0, 0)" using assms by (simp add: inb_def)
  have shv: "grid_shape w h (visited ?m0)"
    unfolding fresh_maze_def by (simp add: grid_shape_replicate)
  have set0: "py_set2 (visited ?m0) 0 0 True = Inr (grid_upd (visited ?m0) (0, 0) True)"
    by (rule py_set2_grid[OF shv o])
  let ?m0' = "?m0\<lparr>visited := grid_upd (visited ?m0) (0, 0) True\<rparr>"
  from dfs_loop_inv[OF dfs_inv_initial[OF assms], of g] obtain m1 g1 where
    l: "dfs_loop ?m0' [(0, 0)] g = Inr (m1, g1)" and inv: "dfs_inv m1 []"
    and fr: "width m1 = w" "height m1 = h" "exit_room m1 = None"
    by (auto simp: fresh_maze_def)
  from inv have ok1: "maze_ok m1" unfolding dfs_inv_def maze_ok_def by blast
  from densify_ok[OF ok1, of g1] obtain m2 g2 where
    d: "densify m1 g1 = Inr (m2, g2)" and fr2: "same_frame m1 m2" and ok2: "maze_ok m2"
    and ext: "door_ext w h (cells m1) (cells m2)"
    and two: "2 \<le> w \<longrightarrow> 2 \<le> h \<longrightarrow> (\<forall>c. inb w h c \<longrightarrow> 2 \<le> length (grid_at (cells m2) c))"
    unfolding fr by blast
  have path: "door_path w h (cells m2) c" if "inb w h c" for c
  proof -
    from dfs_inv_final(2)[OF inv, of c] that have "door_path w h (cells m1) c"
      by (simp add: fr)
    then show ?thesis
      by (rule door_path_mono) (use ext in \<open>auto simp: door_ext_def\<close>)
  qed
  have "generate_maze ?m0 g = Inr (m2, g2)"
    by (simp add: generate_maze_def set0 l d)
  with fr fr2 ok2 two path show ?thesis
    by (auto simp: same_frame_def)
qed

lemma Maze_init_ok:
  assumes "0 < w" "0 < h"
  shows "\<exists>m g'. Maze_init w h g = Inr (m, g') \<and> width m = w \<and> height m = h \<and> maze_ok m
           \<and> (\<forall>c. inb w h c \<longrightarrow> door_path w h (cells m) c)
           \<and> (2 \<le> w \<longrightarrow> 2 \<le> h \<longrightarrow> (\<forall>c. inb w h c \<longrightarrow> 2 \<le> length (grid_at (cells m) c)))
           \<and> (\<exists>e. exit_room m = Some e \<and> inb w h e)"
proof -
  from generate_maze_ok[OF assms, of g] obtain m g1 where
    gm: "generate_maze (fresh_maze w h) g = Inr (m, g1)" and fr: "width m = w" "height m = h"
    and ok: "maze_ok m" and path: "\<forall>c. inb w h c \<longrightarrow> door_path w h (cells m) c"
    and two: "2 \<le> w \<longrightarrow> 2 \<le> h \<longrightarrow> (\<forall>c. inb w h c \<longrightarrow> 2 \<le> length (grid_at (cells m) c))"
    by blast
  obtain ey g2 where ey: "random_randint 0 (h - 1) g1 = Inr (ey, g2)"
    using assms by (simp add: random_randint_def)
  obtain ex g3 where ex: "random_randint 0 (w - 1) g2 = Inr (ex, g3)"
    using assms by (simp add: random_randint_def)
  from random_randint_range[OF ey] random_randint_range[OF ex]
  have e: "inb w h (ey, ex)" by (simp add: inb_def)
  have "Maze_init w h g = Inr (m\<lparr>exit_room := Some (ey, ex)\<rparr>, g3)"
    using gm ey ex by (simp add: Maze_init_def fresh_maze_def)
  with fr ok path two e show ?thesis
    by (auto simp: maze_ok_def)
qed

subsection \<open>Neighbours of a room\<close>

text \<open>The entry of \<open>get_neighbors\<close> for a door: the name of its direction and where it leads.\<close>

definition door_name :: "int \<Rightarrow> string" where
  "door_name d = (if d = 0 then ''North'' else if d = 1 then ''South''
                  else if d = 2 then ''East'' else ''West'')"

definition door_entry :: "int \<times> int \<Rightarrow> int \<Rightarrow> string \<times> int \<times> int" where
  "door_entry c d = (door_name d, fst (door_target c d), snd (door_target c d))"

lemma neighbors_body_door:
  assumes "is_dir d" "inb (width m) (height m) (door_target (y, x) d)"
  shows "neighbors_body m y x acc d = acc @ [door_entry (y, x) d]"
  using assms
  by (auto simp: neighbors_body_def door_entry_def door_name_def door_target_def is_dir_def inb_def)

lemma neighbors_fold:
  assumes "\<And>d. d \<in> set ds \<Longrightarrow> is_dir d \<and> inb (width m) (height m) (door_target (y, x) d)"
  shows "foldl (neighbors_body m y x) acc ds = acc @ map (door_entry (y, x)) ds"
  using assms
proof (induction ds arbitrary: acc)
  case Nil show ?case by simp
next
  case (Cons d ds)
  from Cons.prems[of d] have "neighbors_body m y x acc d = acc @ [door_entry (y, x) d]"
    by (intro neighbors_body_door) simp_all
  with Cons.IH[of "acc @ [door_entry (y, x) d]"] Cons.prems show ?case by simp
qed

lemma get_neighbors_ok:
  assumes "maze_ok m" "inb (width m) (height m) (y, x)"
  shows "get_neighbors m y x = Inr (map (door_entry (y, x)) (grid_at (cells m) (y, x)))"
proof -
  from assms(1) have sh: "grid_shape (width m) (height m) (cells m)"
    and ok: "doors_ok (width m) (height m) (cells m)" by (simp_all add: maze_ok_def)
  have "foldl (neighbors_body m y x) [] (grid_at (cells m) (y, x))
          = [] @ map (door_entry (y, x)) (grid_at (cells m) (y, x))"
    by (rule neighbors_fold) (use doors_okD[OF ok assms(2)] in blast)
  then show ?thesis by (simp add: get_neighbors_def py_get2_grid[OF sh assms(2)])
qed

text \<open>
  The rooms the player can come to: the start room, and every room that \<open>get_neighbors\<close>
  lists for a room the player can come to.
\<close>

inductive reachable :: "maze \<Rightarrow> int \<times> int \<Rightarrow> bool" for m where
  start: "reachable m (0, 0)"
| move: "reachable m (y, x) \<Longrightarrow> get_neighbors m y x = Inr ns \<Longrightarrow> (name, ny, nx) \<in> set ns \<Longrightarrow>
         reachable m (ny, nx)"

lemma door_path_reachable:
  assumes "maze_ok m" "door_path (width m) (height m) (cells m) c"
  shows "reachable m c"
  using assms(2)
proof induction
  case start
  show ?case by (rule reachable.start)
next
  case (door c d)
  obtain y x where c: "c = (y, x)" by (cases c) auto
  from door have i: "inb (width m) (height m) (y, x)" and r: "reachable m (y, x)"
    and d: "d \<in> set (grid_at (cells m) (y, x))" by (simp_all add: c)
  have "(door_name d, fst (door_target (y, x) d), snd (door_target (y, x) d))
          \<in> set (map (door_entry (y, x)) (grid_at (cells m) (y, x)))"
    using d by (force simp: door_entry_def)
  from reachable.move[OF r get_neighbors_ok[OF assms(1) i] this]
  show ?case by (simp add: c)
qed

lemma grid_at_nth: "grid_at xs (y, x) = xs ! nat y ! nat x"
  by (simp add: grid_at_def)

lemma inb_conv: "inb w h (y, x) \<longleftrightarrow> 0 \<le> y \<and> y < h \<and> 0 \<le> x \<and> x < w"
  by (simp add: inb_def)

lemma dirs_length_le_4:
  assumes "distinct ds" "\<And>d. d \<in> set ds \<Longrightarrow> is_dir d"
  shows "length ds \<le> 4"
proof -
  have "set ds \<subseteq> {0, 1, 2, 3}" using assms(2) by (auto simp: is_dir_def)
  then have "card (set ds) \<le> card {0, 1, 2, 3 :: int}" by (intro card_mono) auto
  with assms(1) show ?thesis by (simp add: distinct_card)
qed

text \<open>The maze that \<open>Maze(2, 2)\<close> builds when every draw is 1, by evaluation.\<close>

lemma ebind_weak_cong: "r = r' \<Longrightarrow> ebind r f = ebind r' f"
  by simp

lemma rng_tail_const: "rng_tail (rng_const n) = rng_const n"
  by (simp add: rng_tail_def rng_const_def)

lemma rng_const_0: "rng_const n 0 = n"
  by (simp add: rng_const_def)

lemma Maze_2_2:
  "Maze_init 2 2 (rng_const 1) = Inr (example_maze, rng_const 1)"
  by (simp add: Maze_init_def generate_maze_def dfs_loop.simps dfs_step_def
        unvisited_neighbors_def unvisited_body_def directions_def
        py_set2_def py_get2_def py_get_def py_index_def py_append2_def carve_def
        random_choice_def random_randint_def random_shuffle_def
        densify_def densify_cell_def possible_body_def add_body_def
        rng_tail_const rng_const_0 example_maze_def Let_def
        numeral_2_eq_2 upt_rec
        cong: ebind_weak_cong)

lemma example_maze_cells:
  "cells example_maze ! 0 ! 0 = [2, 1]"
  "cells example_maze ! 0 ! Suc 0 = [3, 1]"
  "cells example_maze ! Suc 0 ! 0 = [2, 0]"
  "cells example_maze ! Suc 0 ! Suc 0 = [0, 3]"
  by (simp_all add: example_maze_def)

lemma Maze_2_2_only:
  "Maze_init 2 2 (rng_const 1) = Inr (m, g') \<Longrightarrow> m = example_maze"
  unfolding Maze_2_2 by simp

text \<open>
  C1. For every size of at least two rows and two columns and every random source, the
  construction of the maze succeeds, and the player can come to every room of the grid
  from room (0, 0) by the doors that \<open>get_neighbors\<close> offers.
\<close>

theorem generated_maze_connected:
  assumes "2 \<le> w" "2 \<le> h"
  shows "\<exists>m g'. Maze_init w h g = Inr (m, g')
           \<and> (\<forall>y x. 0 \<le> y \<and> y < h \<and> 0 \<le> x \<and> x < w \<longrightarrow> reachable m (y, x))"
proof -
  from assms have "0 < w" "0 < h" by simp_all
  from Maze_init_ok[OF this, of g] obtain m g' where
    mi: "Maze_init w h g = Inr (m, g')" and fr: "width m = w" "height m = h" and ok: "maze_ok m"
    and path: "\<forall>c. inb w h c \<longrightarrow> door_path w h (cells m) c"
    by blast
  have "reachable m (y, x)" if "0 \<le> y \<and> y < h \<and> 0 \<le> x \<and> x < w" for y x
  proof -
    from that path have "door_path (width m) (height m) (cells m) (y, x)"
      by (simp add: fr inb_conv)
    from door_path_reachable[OF ok this] show ?thesis .
  qed
  with mi show ?thesis by blast
qed

theorem generated_maze_connected_witness:
  "(2::int) \<le> 2 \<and> Maze_init 2 2 (rng_const 1) = Inr (example_maze, rng_const 1)
   \<and> reachable example_maze (0, 0) \<and> reachable example_maze (0, 1)
   \<and> reachable example_maze (1, 0) \<and> reachable example_maze (1, 1)"
proof -
  have h: "(2::int) \<le> 2" by simp
  from generated_maze_connected[OF h h, of "rng_const 1"] obtain m g' where
    mi: "Maze_init 2 2 (rng_const 1) = Inr (m, g')"
    and a: "\<forall>y x. 0 \<le> y \<and> y < 2 \<and> 0 \<le> x \<and> x < 2 \<longrightarrow> reachable m (y, x)"
    by blast
  note a' = a[unfolded Maze_2_2_only[OF mi], rule_format]
  from a'[of 0 0] a'[of 0 1] a'[of 1 0] a'[of 1 1] Maze_2_2 show ?thesis by simp
qed

text \<open>
  C2. For every size of at least two rows and two columns and every random source, the
  construction succeeds and every room of the grid has a door list of length 2 to 4 in
  which no direction occurs twice.
\<close>

theorem generated_maze_degrees:
  assumes "2 \<le> w" "2 \<le> h"
  shows "\<exists>m g'. Maze_init w h g = Inr (m, g')
           \<and> (\<forall>y x. 0 \<le> y \<and> y < h \<and> 0 \<le> x \<and> x < w \<longrightarrow>
                 2 \<le> length (cells m ! nat y ! nat x)
                 \<and> length (cells m ! nat y ! nat x) \<le> 4
                 \<and> distinct (cells m ! nat y ! nat x))"
proof -
  from assms have "0 < w" "0 < h" by simp_all
  from Maze_init_ok[OF this, of g] assms obtain m g' where
    mi: "Maze_init w h g = Inr (m, g')" and fr: "width m = w" "height m = h" and ok: "maze_ok m"
    and two: "\<forall>c. inb w h c \<longrightarrow> 2 \<le> length (grid_at (cells m) c)"
    by blast
  from ok have dok: "doors_ok w h (cells m)" by (simp add: maze_ok_def fr)
  have "2 \<le> length (cells m ! nat y ! nat x) \<and> length (cells m ! nat y ! nat x) \<le> 4
                 \<and> distinct (cells m ! nat y ! nat x)"
    if "0 \<le> y \<and> y < h \<and> 0 \<le> x \<and> x < w" for y x
  proof -
    from that have i: "inb w h (y, x)" by (simp add: inb_conv)
    have di: "distinct (grid_at (cells m) (y, x))" by (rule doors_ok_distinct[OF dok i])
    have "length (grid_at (cells m) (y, x)) \<le> 4"
      by (rule dirs_length_le_4[OF di]) (use doors_okD[OF dok i] in blast)
    with di two i show ?thesis by (simp add: grid_at_nth)
  qed
  with mi show ?thesis by blast
qed

theorem generated_maze_degrees_witness:
  "(2::int) \<le> 2 \<and> Maze_init 2 2 (rng_const 1) = Inr (example_maze, rng_const 1)
   \<and> 2 \<le> length (cells example_maze ! nat 0 ! nat 1)
   \<and> length (cells example_maze ! nat 0 ! nat 1) \<le> 4
   \<and> distinct (cells example_maze ! nat 0 ! nat 1)"
proof -
  have h: "(2::int) \<le> 2" by simp
  from generated_maze_degrees[OF h h, of "rng_const 1"] obtain m g' where
    mi: "Maze_init 2 2 (rng_const 1) = Inr (m, g')"
    and a: "\<forall>y x. 0 \<le> y \<and> y < 2 \<and> 0 \<le> x \<and> x < 2 \<longrightarrow>
                 2 \<le> length (cells m ! nat y ! nat x)
                 \<and> length (cells m ! nat y ! nat x) \<le> 4
                 \<and> distinct (cells m ! nat y ! nat x)"
    by blast
  note a' = a[unfolded Maze_2_2_only[OF mi], rule_format]
  from a'[of 0 1] Maze_2_2 show ?thesis by simp
qed

text \<open>
  C3. For every positive size and every random source, the construction succeeds and the
  doors are symmetric: when the door list of a room of the grid holds a direction that
  leads to a room of the grid, the door list of that room holds the opposite direction,
  which leads back.
\<close>

theorem generated_maze_symmetric:
  assumes "0 < w" "0 < h"
  shows "\<exists>m g'. Maze_init w h g = Inr (m, g')
           \<and> (\<forall>y x d ny nx.
                 0 \<le> y \<and> y < h \<and> 0 \<le> x \<and> x < w \<and> d \<in> set (cells m ! nat y ! nat x)
                 \<and> door_target (y, x) d = (ny, nx) \<and> 0 \<le> ny \<and> ny < h \<and> 0 \<le> nx \<and> nx < w \<longrightarrow>
                 opposite d \<in> set (cells m ! nat ny ! nat nx)
                 \<and> door_target (ny, nx) (opposite d) = (y, x))"
proof -
  from Maze_init_ok[OF assms, of g] obtain m g' where
    mi: "Maze_init w h g = Inr (m, g')" and fr: "width m = w" "height m = h" and ok: "maze_ok m"
    by blast
  from ok have dok: "doors_ok w h (cells m)" by (simp add: maze_ok_def fr)
  have "opposite d \<in> set (cells m ! nat ny ! nat nx) \<and> door_target (ny, nx) (opposite d) = (y, x)"
    if "0 \<le> y \<and> y < h \<and> 0 \<le> x \<and> x < w \<and> d \<in> set (cells m ! nat y ! nat x)
        \<and> door_target (y, x) d = (ny, nx) \<and> 0 \<le> ny \<and> ny < h \<and> 0 \<le> nx \<and> nx < w"
    for y x d ny nx
  proof -
    from that have i: "inb w h (y, x)" and d: "d \<in> set (grid_at (cells m) (y, x))"
      and t: "door_target (y, x) d = (ny, nx)"
      by (simp_all add: inb_conv grid_at_nth)
    from doors_okD[OF dok i d] have "is_dir d"
      and "opposite d \<in> set (grid_at (cells m) (door_target (y, x) d))" by simp_all
    then show ?thesis
      using door_target_back[of d "(y, x)"] by (simp add: t grid_at_nth)
  qed
  with mi show ?thesis by blast
qed

theorem generated_maze_symmetric_witness:
  "(0::int) < 2 \<and> Maze_init 2 2 (rng_const 1) = Inr (example_maze, rng_const 1)
   \<and> 2 \<in> set (cells example_maze ! nat 0 ! nat 0) \<and> door_target (0, 0) 2 = (0, 1)
   \<and> opposite 2 \<in> set (cells example_maze ! nat 0 ! nat 1)
   \<and> door_target (0, 1) (opposite 2) = (0, 0)"
proof -
  have h: "(0::int) < 2" by simp
  have d: "2 \<in> set (cells example_maze ! nat 0 ! nat 0)" "door_target (0, 0) 2 = (0, 1)"
    by (simp_all add: example_maze_cells door_target_def)
  from generated_maze_symmetric[OF h h, of "rng_const 1"] obtain m g' where
    mi: "Maze_init 2 2 (rng_const 1) = Inr (m, g')"
    and a: "\<forall>y x d ny nx.
        0 \<le> y \<and> y < 2 \<and> 0 \<le> x \<and> x < 2 \<and> d \<in> set (cells m ! nat y ! nat x)
        \<and> door_target (y, x) d = (ny, nx) \<and> 0 \<le> ny \<and> ny < 2 \<and> 0 \<le> nx \<and> nx < 2 \<longrightarrow>
        opposite d \<in> set (cells m ! nat ny ! nat nx)
        \<and> door_target (ny, nx) (opposite d) = (y, x)"
    by blast
  note a' = a[unfolded Maze_2_2_only[OF mi], rule_format]
  from a'[of 0 0 2 0 1] d Maze_2_2 show ?thesis by simp
qed

text \<open>
  C4. The claim is that \<open>get_neighbors\<close> lists the doors in the order North, South,
  East, West. The order of a neighbour list by that priority:
\<close>

definition door_priority :: "string \<Rightarrow> nat" where
  "door_priority name = (if name = ''North'' then 0 else if name = ''South'' then 1
                         else if name = ''East'' then 2 else 3)"

definition priority_ordered :: "(string \<times> int \<times> int) list \<Rightarrow> bool" where
  "priority_ordered ns = sorted (map (\<lambda>n. door_priority (fst n)) ns)"

text \<open>
  The claim fails: in the maze that \<open>Maze(2, 2)\<close> builds when every draw is 1, the room
  (0, 1) was entered from the west and then left to the south, and \<open>get_neighbors\<close>
  lists West before South.
\<close>

theorem neighbors_not_in_priority_order:
  "Maze_init 2 2 (rng_const 1) = Inr (example_maze, rng_const 1)
   \<and> get_neighbors example_maze 0 1 = Inr [(''West'', 0, 0), (''South'', 1, 1)]
   \<and> \<not> priority_ordered [(''West'', 0, 0), (''South'', 1, 1)]"
proof -
  have "get_neighbors example_maze 0 1 = Inr [(''West'', 0, 0), (''South'', 1, 1)]"
    by (simp add: get_neighbors_def example_maze_def py_get2_def py_get_def py_index_def
          neighbors_body_def)
  moreover have "\<not> priority_ordered [(''West'', 0, 0), (''South'', 1, 1)]"
    by (simp add: priority_ordered_def door_priority_def)
  ultimately show ?thesis using Maze_2_2 by blast
qed

text \<open>
  C4, as amended. For every positive size and every random source the construction
  succeeds, and for every room of the grid \<open>get_neighbors\<close> returns one entry for each
  door of the room, with the name of its direction and the room it leads to, in the order
  of the room's door list, that is, the order in which the doors were carved.
\<close>

theorem neighbors_follow_door_list:
  assumes "0 < w" "0 < h"
  shows "\<exists>m g'. Maze_init w h g = Inr (m, g')
           \<and> (\<forall>y x. 0 \<le> y \<and> y < h \<and> 0 \<le> x \<and> x < w \<longrightarrow>
                 get_neighbors m y x = Inr (map (door_entry (y, x)) (cells m ! nat y ! nat x)))"
proof -
  from Maze_init_ok[OF assms, of g] obtain m g' where
    mi: "Maze_init w h g = Inr (m, g')" and fr: "width m = w" "height m = h" and ok: "maze_ok m"
    by blast
  have "get_neighbors m y x = Inr (map (door_entry (y, x)) (cells m ! nat y ! nat x))"
    if "0 \<le> y \<and> y < h \<and> 0 \<le> x \<and> x < w" for y x
  proof -
    from that have "inb (width m) (height m) (y, x)" by (simp add: inb_conv fr)
    from get_neighbors_ok[OF ok this] show ?thesis by (simp add: grid_at_nth)
  qed
  with mi show ?thesis by blast
qed

theorem neighbors_follow_door_list_witness:
  "(0::int) < 2 \<and> Maze_init 2 2 (rng_const 1) = Inr (example_maze, rng_const 1)
   \<and> get_neighbors example_maze 0 1
       = Inr (map (door_entry (0, 1)) (cells example_maze ! nat 0 ! nat 1))
   \<and> map (door_entry (0, 1)) (cells example_maze ! nat 0 ! nat 1)
       = [(''West'', 0, 0), (''South'', 1, 1)]"
proof -
  have h: "(0::int) < 2" by simp
  from neighbors_follow_door_list[OF h h, of "rng_const 1"] obtain m g' where
    mi: "Maze_init 2 2 (rng_const 1) = Inr (m, g')"
    and a: "\<forall>y x. 0 \<le> y \<and> y < 2 \<and> 0 \<le> x \<and> x < 2 \<longrightarrow>
        get_neighbors m y x = Inr (map (door_entry (y, x)) (cells m ! nat y ! nat x))"
    by blast
  note a' = a[unfolded Maze_2_2_only[OF mi], rule_format]
  have "map (door_entry (0, 1)) (cells example_maze ! nat 0 ! nat 1)
       = [(''West'', 0, 0), (''South'', 1, 1)]"
    by (simp add: example_maze_cells door_entry_def door_name_def door_target_def)
  with a'[of 0 1] Maze_2_2 show ?thesis by simp
qed

section \<open>The session: the player stays in the grid\<close>

lemma rbind_eq_Inr:
  "rbind r f = Some (Inr y) \<longleftrightarrow> (\<exists>v. r = Inr v \<and> f v = Some (Inr y))"
  by (cases r) simp_all

lemma pbind_eq_Inr:
  "pbind r f = Some (Inr y) \<longleftrightarrow> (\<exists>v. r = Some (Inr v) \<and> f v = Some (Inr y))"
proof (cases r)
  case None then show ?thesis by simp
next
  case (Some a) then show ?thesis by (cases a) simp_all
qed

lemma combat_gain_position [simp]: "position (combat_gain gain p) = position p"
  by (simp add: combat_gain_def)

lemma apply_positive_position [simp]: "position (apply_positive outcome p) = position p"
  by (simp add: apply_positive_def)

lemma apply_negative_position:
  "apply_negative outcome p = Inr p' \<Longrightarrow> position p' = position p"
  by (auto simp: apply_negative_def ebind_eq_Inr split: if_splits)

lemma combat_loop_position:
  "combat_loop monster_health monster_strength (p, g, out) = Some (Inr (won, p', g', out'))
   \<Longrightarrow> position p' = position p"
proof (induction "nat monster_health" arbitrary: monster_health p g out rule: less_induct)
  case less
  note res = less.prems
  show ?case
  proof (cases "health p > 0 \<and> monster_health > 0")
    case False
    with res show ?thesis
      by (subst (asm) combat_loop.simps) (auto split: if_splits)
  next
    case True
    show ?thesis
    proof (cases "random_randint 1 (strength p) g")
      case (Inl e)
      with res True show ?thesis by (subst (asm) combat_loop.simps) simp
    next
      case (Inr a)
      obtain damage g1 where a: "a = (damage, g1)" by (cases a) auto
      from random_randint_range[OF Inr[unfolded a]] have d1: "1 \<le> damage" by simp
      show ?thesis
      proof (cases "monster_health - damage \<le> 0")
        case win: True
        with res True Inr a show ?thesis
          by (subst (asm) combat_loop.simps) (auto simp: Let_def ebind_eq_Inr)
      next
        case False
        show ?thesis
        proof (cases "random_randint 1 monster_strength g1")
          case (Inl e)
          with res True Inr a False show ?thesis
            by (subst (asm) combat_loop.simps) (simp add: Let_def)
        next
          case b: (Inr b)
          obtain damage2 g2 where b2: "b = (damage2, g2)" by (cases b) auto
          have lt: "nat (monster_health - damage) < nat monster_health"
            using d1 False by linarith
          from res True Inr a False b b2 obtain out2 where
            "combat_loop (monster_health - damage) monster_strength
               (p\<lparr>health := health p - damage2\<rparr>, g2, out2) = Some (Inr (won, p', g', out'))"
            by (subst (asm) combat_loop.simps) (simp add: Let_def)
          from less.hyps[OF lt this] show ?thesis by simp
        qed
      qed
    qed
  qed
qed

lemma combat_position:
  "combat (p, g, out) = Some (Inr (won, p', g', out')) \<Longrightarrow> position p' = position p"
  by (auto simp: combat_def rbind_eq_Inr dest: combat_loop_position)

lemma say_simps [simp]:
  "player (say line gs) = player gs"
  "stdin (say line gs) = stdin gs"
  "rand (say line gs) = rand gs"
  "visited_set (say line gs) = visited_set gs"
  by (simp_all add: say_def)

lemma set_health_position [simp]: "position (player (set_health h gs)) = position (player gs)"
  by (simp add: set_health_def)

lemma read_input_player: "read_input gs = Some (line, gs') \<Longrightarrow> player gs' = player gs"
  by (auto simp: read_input_def split: list.splits)

lemma combat_branch_position:
  assumes "combat_branch gs = Some (Inr (fl, gs'))"
  shows "position (player gs') = position (player gs)"
proof -
  from assms obtain cc g1 where
    r: "(case read_input (say ''Fight? (yes/no): '' (say cc (gs\<lparr>rand := g1\<rparr>))) of
          None \<Rightarrow> Some (Inr (Break, say eof_message (say ''Fight? (yes/no): '' (say cc (gs\<lparr>rand := g1\<rparr>)))))
        | Some (line, gs2) \<Rightarrow>
            let fight_dec = py_lower (py_strip line) in
            if fight_dec \<notin> set (yes_options @ no_options) then
              Some (Inr (Continue, say please_message gs2))
            else if fight_dec \<in> set yes_options then
              pbind (combat (player gs2, rand gs2, stdout gs2)) (\<lambda>(won, p, g, out).
                Some (Inr (if \<not> won then Break else Next,
                           gs2\<lparr>player := p, rand := g, stdout := out\<rparr>)))
            else
              Some (Inr (Next, set_health (health (player gs2) - 10)
                                 (say ''You flee, but take 10 damage.'' gs2))))
         = Some (Inr (fl, gs'))"
    by (auto simp: combat_branch_def rbind_eq_Inr Let_def)
  let ?gs1 = "say ''Fight? (yes/no): '' (say cc (gs\<lparr>rand := g1\<rparr>))"
  show ?thesis
  proof (cases "read_input ?gs1")
    case None
    with r show ?thesis by auto
  next
    case (Some a)
    obtain line gs2 where a: "a = (line, gs2)" by (cases a) auto
    from read_input_player[OF Some[unfolded a]] have p2: "player gs2 = player gs" by simp
    from r Some a show ?thesis
      by (auto simp: Let_def pbind_eq_Inr p2 split: if_splits dest!: combat_position
               simp del: set_append)
  qed
qed

lemma branch_positions:
  "positive_branch gs = Inr (fl, gs') \<Longrightarrow> position (player gs') = position (player gs)"
  "negative_branch gs = Inr (fl, gs') \<Longrightarrow> position (player gs') = position (player gs)"
  "even_branch gs = Inr (fl, gs') \<Longrightarrow> position (player gs') = position (player gs)"
  by (auto simp: positive_branch_def negative_branch_def even_branch_def ebind_eq_Inr
           dest: apply_negative_position)

lemma event_yes_position:
  "event_yes gs = Some (Inr (fl, gs')) \<Longrightarrow> position (player gs') = position (player gs)"
  unfolding event_yes_def
  by (auto simp: rbind_eq_Inr pbind_eq_Inr Let_def split: if_splits prod.splits
           dest!: combat_branch_position branch_positions)

lemma room_event_position:
  assumes "room_event gs y x rid = Some (Inr (fl, gs'))"
  shows "position (player gs') = position (player gs)"
proof (cases "stdin gs")
  case Nil
  with assms show ?thesis
    unfolding room_event_def
    by (auto simp: rbind_eq_Inr Let_def read_input_def say_def)
next
  case (Cons line rest)
  with assms show ?thesis
    unfolding room_event_def
    by (auto simp: rbind_eq_Inr Let_def read_input_def say_def split: if_splits
             dest!: event_yes_position simp del: set_append)
qed


lemma door_body_options:
  assumes "foldl door_body (opts, gs) es = (opts', gs')" "map_of opts' k = Some v"
  shows "map_of opts k = Some v \<or> v \<in> snd ` set es"
  using assms
proof (induction es arbitrary: opts gs)
  case Nil then show ?case by simp
next
  case (Cons e es)
  obtain i dn ny nx where e: "e = (i, dn, ny, nx)" by (cases e) auto
  have "door_body (opts, gs) e = (AList.update (str_int (int i)) (dn, ny, nx) opts,
                      say (str_int (int i) @ ''. '' @ dn) gs)"
    by (simp add: door_body_def e)
  with Cons.prems(1) have
    "foldl door_body (AList.update (str_int (int i)) (dn, ny, nx) opts,
                      say (str_int (int i) @ ''. '' @ dn) gs) es = (opts', gs')"
    by simp
  from Cons.IH[OF this Cons.prems(2)]
  show ?case by (auto simp: e update_conv' split: if_splits)
qed

lemma door_phase_position:
  assumes ok: "maze_ok m" and c: "inb (width m) (height m) (y, x)"
    and r: "door_phase m y x gs = Inr (fl, gs')"
  shows "position (player gs') = position (player gs)
         \<or> inb (width m) (height m) (position (player gs'))"
proof -
  let ?ns = "map (door_entry (y, x)) (grid_at (cells m) (y, x))"
  note gn = get_neighbors_ok[OF ok c]
  from ok have dok: "doors_ok (width m) (height m) (cells m)" by (simp add: maze_ok_def)
  show ?thesis
  proof (cases "?ns = []")
    case True
    with r gn show ?thesis by (auto simp: door_phase_def)
  next
    case False
    obtain opts gs2 where f: "foldl door_body ([], say ''Available doors:'' gs) (enumerate 1 ?ns) = (opts, gs2)"
      by (cases "foldl door_body ([], say ''Available doors:'' gs) (enumerate 1 ?ns)") auto
    from foldl_door_body_game[OF f] have p2: "player gs2 = player gs" by simp
    show ?thesis
    proof (cases "stdin gs2")
      case Nil
      with r gn False f p2 show ?thesis
        by (auto simp: door_phase_def Let_def read_input_def say_def)
    next
      case (Cons line rest)
      show ?thesis
      proof (cases "map_of opts (py_strip line)")
        case None
        with r gn False f p2 Cons show ?thesis
          by (auto simp: door_phase_def Let_def read_input_def say_def)
      next
        case (Some v)
        obtain dn ny nx where v: "v = (dn, ny, nx)" by (cases v) auto
        from door_body_options[OF f Some] have "v \<in> snd ` set (enumerate 1 ?ns)" by simp
        moreover have "snd ` set (enumerate 1 ?ns) = set ?ns"
          unfolding set_map[symmetric] map_snd_enumerate ..
        ultimately have "v \<in> set ?ns" by simp
        then obtain d where d: "d \<in> set (grid_at (cells m) (y, x))" and ve: "v = door_entry (y, x) d"
          by auto
        from doors_okD[OF dok c d] have "inb (width m) (height m) (door_target (y, x) d)" by simp
        with ve v have i: "inb (width m) (height m) (ny, nx)"
          by (simp add: door_entry_def)
        from r gn False f p2 Cons Some v i show ?thesis
          by (auto simp: door_phase_def Let_def read_input_def say_def ebind_eq_Inr
                   split: if_splits)
      qed
    qed
  qed
qed

lemma game_step_position:
  assumes ok: "maze_ok m" and c: "inb (width m) (height m) (position (player gs))"
    and r: "game_step m gs = Some (Inr (fl, gs'))"
  shows "inb (width m) (height m) (position (player gs'))"
proof -
  obtain y x where pos: "position (player gs) = (y, x)" by (cases "position (player gs)") auto
  show ?thesis
  proof (cases "Some (y, x) = exit_room m")
    case True
    with r pos c show ?thesis by (auto simp: game_step_def Let_def)
  next
    case False
    with r pos obtain fl1 gs1 where
      a: "(if (y, x) \<notin> visited_set gs then room_event gs y x (y * width m + x)
           else Some (Inr (Next, gs))) = Some (Inr (fl1, gs1))"
      and b: "(if fl1 \<noteq> Next then Some (Inr (fl1, gs1)) else Some (door_phase m y x gs1))
              = Some (Inr (fl, gs'))"
      by (auto simp: game_step_def Let_def pbind_eq_Inr)
    from a have p1: "position (player gs1) = (y, x)"
      using pos by (auto split: if_splits dest: room_event_position)
    show ?thesis
    proof (cases "fl1 = Next")
      case False
      with b p1 c pos show ?thesis by auto
    next
      case True
      with b have "door_phase m y x gs1 = Inr (fl, gs')" by simp
      from door_phase_position[OF ok c[unfolded pos] this] p1 c pos show ?thesis by auto
    qed
  qed
qed

text \<open>
  The states in which a session stands at the head of \<open>while player.is_alive()\<close>: the
  state before the loop, and the state after every iteration that did not end by
  \<open>break\<close>.
\<close>

inductive session_state :: "maze \<Rightarrow> game \<Rightarrow> game \<Rightarrow> bool" for m gs0 where
  first: "session_state m gs0 gs0"
| iteration: "session_state m gs0 gs \<Longrightarrow> is_alive (player gs) \<Longrightarrow>
              game_step m gs = Some (Inr (fl, gs')) \<Longrightarrow> fl \<noteq> Break \<Longrightarrow>
              session_state m gs0 gs'"

lemma session_state_position:
  assumes "session_state m gs0 gs" "maze_ok m"
    and "inb (width m) (height m) (position (player gs0))"
  shows "inb (width m) (height m) (position (player gs))"
  using assms
proof induction
  case first
  then show ?case by simp
next
  case (iteration gs fl gs')
  from game_step_position[OF iteration.prems(1) _ iteration.hyps(3)] iteration
  show ?case by simp
qed

lemma table_lookup_25:
  assumes "0 \<le> i" "i \<le> 24"
  shows "py_get room_descriptions i = Inr (room_descriptions ! nat i)"
    and "py_get choices i = Inr (choices ! nat i)"
proof -
  have "length room_descriptions = 25" "length choices = 25"
    by (simp_all add: room_descriptions_def choices_def)
  with assms show "py_get room_descriptions i = Inr (room_descriptions ! nat i)"
    and "py_get choices i = Inr (choices ! nat i)"
    by (simp_all add: py_get_def py_index_def)
qed

text \<open>
  C10. For every random source and every input, the default maze is built, and in every
  state in which the session stands at the head of the game loop the player's position is
  inside the five by five grid; so the room index \<open>y * width + x\<close> lies between 0 and 24
  and the subscriptions of \<open>room_descriptions\<close> and \<open>choices\<close> at it do not raise.
\<close>

theorem position_stays_in_grid:
  "\<exists>m g1. Maze_init 5 5 g = Inr (m, g1) \<and> width m = 5 \<and> height m = 5
     \<and> (\<forall>gs y x. session_state m (new_game g1 inputs) gs \<and> position (player gs) = (y, x) \<longrightarrow>
           0 \<le> y \<and> y < 5 \<and> 0 \<le> x \<and> x < 5
           \<and> 0 \<le> y * width m + x \<and> y * width m + x \<le> 24
           \<and> py_get room_descriptions (y * width m + x)
               = Inr (room_descriptions ! nat (y * width m + x))
           \<and> py_get choices (y * width m + x) = Inr (choices ! nat (y * width m + x)))"
proof -
  have p: "(0::int) < 5" by simp
  from Maze_init_ok[OF p p, of g] obtain m g1 where
    mi: "Maze_init 5 5 g = Inr (m, g1)" and fr: "width m = 5" "height m = 5" and ok: "maze_ok m"
    by blast
  have "0 \<le> y \<and> y < 5 \<and> 0 \<le> x \<and> x < 5
           \<and> 0 \<le> y * width m + x \<and> y * width m + x \<le> 24
           \<and> py_get room_descriptions (y * width m + x)
               = Inr (room_descriptions ! nat (y * width m + x))
           \<and> py_get choices (y * width m + x) = Inr (choices ! nat (y * width m + x))"
    if "session_state m (new_game g1 inputs) gs \<and> position (player gs) = (y, x)" for gs y x
  proof -
    have "inb (width m) (height m) (position (player (new_game g1 inputs)))"
      by (simp add: Player_init_position inb_def fr)
    from session_state_position[OF _ ok this, of gs] that
    have i: "0 \<le> y \<and> y < 5 \<and> 0 \<le> x \<and> x < 5" by (simp add: inb_def fr)
    then have b: "0 \<le> y * width m + x" "y * width m + x \<le> 24" unfolding fr by auto
    from i b table_lookup_25[OF b] show ?thesis by simp
  qed
  with mi fr show ?thesis by blast
qed


text \<open>The maze that \<open>Maze()\<close> builds when every draw is 1, by evaluation.\<close>

definition maze_5_5 :: maze where
  "maze_5_5 = \<lparr>width = 5, height = 5,
      cells =
        [[[2, 1], [3, 2], [3, 2], [3, 2], [3, 1]],
         [[2, 1, 0], [2, 3], [2, 3], [2, 3], [0, 3]],
         [[0, 2], [3, 2], [3, 2], [3, 2], [3, 1]],
         [[2, 1], [2, 3], [2, 3], [2, 3], [0, 3, 1]],
         [[0, 2], [3, 2], [3, 2], [3, 2], [3, 0]]],
      visited =
        [[True, True, True, True, True], [True, True, True, True, True],
         [True, True, True, True, True], [True, True, True, True, True],
         [True, True, True, True, True]],
      exit_room = Some (1, 1)\<rparr>"

lemma Maze_5_5:
  "map_sum id (\<lambda>p. (fst p, snd p 0)) (Maze_init 5 5 (rng_const 1)) = Inr (maze_5_5, 1)"
  by code_simp

lemma Maze_5_5_only:
  assumes "Maze_init 5 5 (rng_const 1) = Inr (m, g1)"
  shows "m = maze_5_5" and "g1 0 = 1"
  using Maze_5_5 unfolding assms by simp_all

lemma first_move:
  assumes "g1 0 = 1"
  shows "\<exists>gs. game_step maze_5_5 (new_game g1 [''no'', ''1'']) = Some (Inr (Next, gs))
           \<and> position (player gs) = (0, 1)"
proof -
  let ?gs0 = "new_game g1 [''no'', ''1'']"
  have no: "py_lower (py_strip ''no'') \<in> set (yes_options @ no_options)"
    "py_lower (py_strip ''no'') \<notin> set yes_options"
    by (simp_all add: py_lower_def py_strip_def is_space_def lower_char_def yes_options_def
          no_options_def)
  let ?gs4 = "?gs0\<lparr>visited_set := insert (0, 0) (visited_set ?gs0),
       stdout := stdout ?gs0 @ [CHR 0x0A # room_descriptions ! 0,
                   ''Do you want to '' @ choices ! 0 @ '' (yes/no)?''],
       stdin := [''1'']\<rparr>"
  have re: "room_event ?gs0 0 0 (0 * width maze_5_5 + 0) = Some (Inr (Next, ?gs4))"
    using no first_room_texts[of "width maze_5_5"]
    by (simp add: room_event_def Let_def say_def read_input_def del: set_append)
  have gn: "get_neighbors maze_5_5 0 0 = Inr [(''East'', 0, 1), (''South'', 1, 0)]"
    by (simp add: get_neighbors_def maze_5_5_def py_get2_def py_get_def py_index_def
          neighbors_body_def)
  have one: "str_int 1 = ''1''" "str_int 2 = ''2''" "py_strip ''1'' = ''1''"
    by (simp_all add: str_int_def str_nat.simps py_strip_def is_space_def)
  have r: "random_randint 1 100 g1 = Inr (2, rng_tail g1)"
    using assms by (simp add: random_randint_def)
  have "\<exists>gs. door_phase maze_5_5 0 0 ?gs4 = Inr (Next, gs) \<and> position (player gs) = (0, 1)"
    by (simp add: door_phase_def gn enumerate_simps door_body_def one say_def read_input_def
          Let_def r)
  then obtain gs where d: "door_phase maze_5_5 0 0 ?gs4 = Inr (Next, gs)"
    and p: "position (player gs) = (0, 1)" by blast
  have "game_step maze_5_5 ?gs0 = Some (Inr (Next, gs))"
    using re d by (simp add: game_step_def Let_def Player_init_position maze_5_5_def)
  with p show ?thesis by blast
qed

theorem position_stays_in_grid_witness:
  "\<exists>g1 gs. Maze_init 5 5 (rng_const 1) = Inr (maze_5_5, g1)
     \<and> session_state maze_5_5 (new_game g1 [''no'', ''1'']) gs
     \<and> position (player gs) = (0, 1)
     \<and> 0 \<le> 0 * width maze_5_5 + 1 \<and> 0 * width maze_5_5 + 1 \<le> 24
     \<and> py_get room_descriptions (0 * width maze_5_5 + 1)
         = Inr (room_descriptions ! nat (0 * width maze_5_5 + 1))
     \<and> py_get choices (0 * width maze_5_5 + 1)
         = Inr (choices ! nat (0 * width maze_5_5 + 1))"
proof -
  from position_stays_in_grid[of "rng_const 1" "[''no'', ''1'']"] obtain m g1 where
    mi: "Maze_init 5 5 (rng_const 1) = Inr (m, g1)"
    and a: "\<forall>gs y x. session_state m (new_game g1 [''no'', ''1'']) gs
              \<and> position (player gs) = (y, x) \<longrightarrow>
           0 \<le> y \<and> y < 5 \<and> 0 \<le> x \<and> x < 5
           \<and> 0 \<le> y * width m + x \<and> y * width m + x \<le> 24
           \<and> py_get room_descriptions (y * width m + x)
               = Inr (room_descriptions ! nat (y * width m + x))
           \<and> py_get choices (y * width m + x) = Inr (choices ! nat (y * width m + x))"
    by blast
  note m = Maze_5_5_only(1)[OF mi] and g = Maze_5_5_only(2)[OF mi]
  from first_move[of g1, OF g] obtain gs where
    st: "game_step maze_5_5 (new_game g1 [''no'', ''1'']) = Some (Inr (Next, gs))"
    and p: "position (player gs) = (0, 1)" by blast
  have "session_state maze_5_5 (new_game g1 [''no'', ''1'']) gs"
    by (rule session_state.iteration[OF session_state.first _ st])
       (simp_all add: Player_init_alive)
  with a[unfolded m, rule_format, of gs 0 1] p mi[unfolded m] show ?thesis by blast
qed

end
